theory Spec2Isabelle
  imports Main
begin

section \<open>The upload writer of b2/writer.go\<close>

text \<open>
  The Go type \<^verbatim>\<open>Writer\<close> buffers a byte stream, cuts it into chunks of
  \<^verbatim>\<open>csize\<close> bytes, hands every full chunk to a pool of upload goroutines over an
  unbuffered channel and, on \<^verbatim>\<open>Close\<close>, either uploads the single buffer in one call or
  finishes the large file.

  The embedding keeps the foreground functions (\<^verbatim>\<open>setErr\<close>, \<^verbatim>\<open>getErr\<close>, \<^verbatim>\<open>Write\<close>,
  \<^verbatim>\<open>simpleWriteFile\<close>, \<^verbatim>\<open>sendChunk\<close>, \<^verbatim>\<open>Close\<close>) as functions on the writer's state, in the
  shape of the source. The goroutine started by \<^verbatim>\<open>thread\<close> is a step function on a
  per-goroutine control state. Interleaving is explicit: the state carries a schedule, and
  at every point where the foreground touches state shared with the goroutines it first
  lets the goroutines named by the schedule take their steps (\<open>yield\<close>).

  The remote service (the interfaces behind \<^verbatim>\<open>w.o.b.b\<close>, \<^verbatim>\<open>w.file\<close>, the upload URLs, and the
  retry predicate \<^verbatim>\<open>w.o.b.r.reupload\<close>) is a parameter: a record of functions that answer
  each call from the history of all calls made so far. Logging through glog and the
  process-wide goroutine counter \<^verbatim>\<open>gid\<close>, which is only logged, are left out. Go's \<^verbatim>\<open>int\<close> is
  modelled by \<open>int\<close>: the counters here count chunks and bytes held in memory.
\<close>

subsection \<open>Data\<close>

type_synonym bytes = string

type_synonym info = "(string \<times> string) list"

datatype error = ContextCanceled | RemoteError string

text \<open>\<^verbatim>\<open>type chunk struct { id int; size int; sha1 string; buf *bytes.Buffer }\<close>\<close>

record chunk =
  chunk_id :: int
  chunk_size :: int
  chunk_sha1 :: string
  chunk_buf :: bytes

text \<open>
  One entry per call to the remote service, with its arguments and its answer.
  An upload call receives an \<^verbatim>\<open>io.Reader\<close>; the entry records the bytes the reader still
  had to offer when the call was made and how many of them the call read.
\<close>

datatype call =
    StartLargeFile string string info "error option"
  | GetUploadPartURL "error + nat"
  | UploadPart nat bytes string int int nat int "error option"
  | FinishLargeFile "error + nat"
  | GetUploadURL "error + nat"
  | UploadFile nat bytes int string string string info nat "error + nat"

record env =
  startLargeFile :: "call list \<Rightarrow> string \<Rightarrow> string \<Rightarrow> info \<Rightarrow> error option"
  getUploadPartURL :: "call list \<Rightarrow> error + nat"
  uploadPart :: "call list \<Rightarrow> nat \<Rightarrow> bytes \<Rightarrow> string \<Rightarrow> int \<Rightarrow> int \<Rightarrow> nat \<times> int \<times> error option"
  finishLargeFile :: "call list \<Rightarrow> error + nat"
  getUploadURL :: "call list \<Rightarrow> error + nat"
  uploadFile :: "call list \<Rightarrow> nat \<Rightarrow> bytes \<Rightarrow> int \<Rightarrow> string \<Rightarrow> string \<Rightarrow> string \<Rightarrow> info \<Rightarrow> nat \<times> (error + nat)"
  reupload :: "error option \<Rightarrow> bool"
  sha1_hex :: "bytes \<Rightarrow> string"

text \<open>The channel \<^verbatim>\<open>ready\<close>: nil until the large file is started, then open, then closed.\<close>

datatype chan = NilChan | Open | Closed

text \<open>
  Where a goroutine started by \<^verbatim>\<open>thread\<close> stands:
  \<^item> \<open>WStart\<close>: started, about to call \<^verbatim>\<open>getUploadPartURL\<close> (line 100);
  \<^item> \<open>WAdd fc\<close>: holds the upload URL, about to run \<^verbatim>\<open>w.wg.Add(1)\<close> (line 105);
  \<^item> \<open>WRecv fc\<close>: at the receive \<^verbatim>\<open>chunk, ok := <-w.ready\<close> (line 108);
  \<^item> \<open>WUpload fc c r\<close>: at \<^verbatim>\<open>redo\<close>, about to call \<^verbatim>\<open>uploadPart\<close> with the reader \<open>r\<close>,
    given as the bytes it has not yet delivered (line 115);
  \<^item> \<open>WRetry c r\<close>: the failed upload was found retriable, about to call
    \<^verbatim>\<open>getUploadPartURL\<close> again (line 119);
  \<^item> \<open>WExit\<close>: returned.
\<close>

datatype wstate =
    WStart
  | WAdd nat
  | WRecv nat
  | WUpload nat chunk bytes
  | WRetry chunk bytes
  | WExit

record writer =
  ConcurrentUploads :: int
  ContentType :: string
  Info :: info
  csize :: int
  ctx_done :: bool
  cancels :: nat
  ready :: chan
  offer :: "chunk option"
  wg :: int
  once_fired :: bool
  done_fired :: bool
  file_set :: bool
  o_f :: "nat option"
  name :: string
  cbuf :: bytes
  cidx :: int
  chsh :: bytes
  err :: "error option"
  workers :: "wstate list"
  calls :: "call list"
  handed :: "chunk list"
  sched :: "nat list list"

text \<open>
  Fields that are not fields of the Go struct: \<open>ctx_done\<close> is whether \<^verbatim>\<open>w.ctx\<close> is
  cancelled and \<open>cancels\<close> counts the calls of \<^verbatim>\<open>w.cancel\<close>; \<open>offer\<close> is the chunk the
  foreground is currently trying to send on the unbuffered channel; \<open>once_fired\<close> and
  \<open>done_fired\<close> are the two \<^verbatim>\<open>sync.Once\<close>; \<open>file_set\<close> is whether \<^verbatim>\<open>w.file\<close> is set;
  \<open>o_f\<close> is \<^verbatim>\<open>w.o.f\<close>; \<open>chsh\<close> is the running SHA-1 state, given as the bytes written
  to it since \<^verbatim>\<open>sha1.New()\<close>; \<open>workers\<close> are the goroutines in the order they were
  started; \<open>calls\<close> is the history of remote calls; \<open>handed\<close> lists the chunks a
  goroutine has received, in hand-off order; \<open>sched\<close> is the schedule.
\<close>

datatype reason = Blocked | Panicked | Diverged

datatype 'a outcome = Ret 'a writer | Stuck reason writer

fun state_of :: "'a outcome \<Rightarrow> writer" where
  "state_of (Ret _ w) = w"
| "state_of (Stuck _ w) = w"

subsection \<open>The error cell\<close>

definition setErr :: "error option \<Rightarrow> writer \<Rightarrow> writer" where
  "setErr e w =
     (case e of
        None \<Rightarrow> w
      | Some x \<Rightarrow>
          (if err w = None
           then w\<lparr>err := Some x, ctx_done := True, cancels := cancels w + 1\<rparr>
           else w))"

definition getErr :: "writer \<Rightarrow> error option" where
  "getErr w = err w"

subsection \<open>The upload goroutine\<close>

definition set_worker :: "nat \<Rightarrow> wstate \<Rightarrow> writer \<Rightarrow> writer" where
  "set_worker i s w = w\<lparr>workers := (workers w)[i := s]\<rparr>"

text \<open>
  One step of goroutine \<open>i\<close>. A goroutine at the receive with nothing offered and the
  channel not closed stays where it is. The deferred \<^verbatim>\<open>w.wg.Done()\<close> runs on every return
  after line 105.
\<close>

definition wstep :: "env \<Rightarrow> nat \<Rightarrow> writer \<Rightarrow> writer" where
  "wstep E i w =
     (if length (workers w) \<le> i then w
      else
        (case workers w ! i of
           WStart \<Rightarrow>
             (let r = getUploadPartURL E (calls w);
                  w1 = w\<lparr>calls := calls w @ [GetUploadPartURL r]\<rparr>
              in case r of
                   Inl e \<Rightarrow> set_worker i WExit (setErr (Some e) w1)
                 | Inr fc \<Rightarrow> set_worker i (WAdd fc) w1)
         | WAdd fc \<Rightarrow> set_worker i (WRecv fc) (w\<lparr>wg := wg w + 1\<rparr>)
         | WRecv fc \<Rightarrow>
             (case offer w of
                Some c \<Rightarrow> set_worker i (WUpload fc c (chunk_buf c)) (w\<lparr>offer := None\<rparr>)
              | None \<Rightarrow>
                  (if ready w = Closed
                   then set_worker i WExit (w\<lparr>wg := wg w - 1\<rparr>)
                   else w))
         | WUpload fc c r \<Rightarrow>
             (case uploadPart E (calls w) fc r (chunk_sha1 c) (chunk_size c) (chunk_id c) of
                (k, n, e) \<Rightarrow>
                  (let w1 = w\<lparr>calls := calls w @
                              [UploadPart fc r (chunk_sha1 c) (chunk_size c) (chunk_id c) k n e]\<rparr>
                   in if n \<noteq> chunk_size c \<or> e \<noteq> None
                      then (if reupload E e
                            then set_worker i (WRetry c (drop k r)) w1
                            else set_worker i WExit ((setErr e w1)\<lparr>wg := wg w1 - 1\<rparr>))
                      else set_worker i (WRecv fc) w1))
         | WRetry c r \<Rightarrow>
             (let res = getUploadPartURL E (calls w);
                  w1 = w\<lparr>calls := calls w @ [GetUploadPartURL res]\<rparr>
              in case res of
                   Inl e \<Rightarrow> set_worker i WExit ((setErr (Some e) w1)\<lparr>wg := wg w1 - 1\<rparr>)
                 | Inr f \<Rightarrow> set_worker i (WUpload f c r) w1)
         | WExit \<Rightarrow> w))"

fun wsteps :: "env \<Rightarrow> nat list \<Rightarrow> writer \<Rightarrow> writer" where
  "wsteps E [] w = w"
| "wsteps E (i # is) w = wsteps E is (wstep E i w)"

text \<open>
  A scheduling point of the foreground: the goroutines named by the head of the schedule
  take one step each, in that order.
\<close>

definition yield :: "env \<Rightarrow> writer \<Rightarrow> writer" where
  "yield E w =
     (case sched w of
        [] \<Rightarrow> w
      | is # rest \<Rightarrow> wsteps E is (w\<lparr>sched := rest\<rparr>))"

definition thread :: "writer \<Rightarrow> writer" where
  "thread w = w\<lparr>workers := workers w @ [WStart]\<rparr>"

text \<open>\<^verbatim>\<open>for i := 0; i < w.ConcurrentUploads; i++ { w.thread() }\<close>\<close>

fun spawn :: "nat \<Rightarrow> writer \<Rightarrow> writer" where
  "spawn 0 w = w"
| "spawn (Suc n) w = spawn n (thread w)"

subsection \<open>The foreground\<close>

text \<open>
  \<^verbatim>\<open>w.w\<close> is \<^verbatim>\<open>io.MultiWriter(w.chsh, w.cbuf)\<close>: a write appends to the hash state and to the
  buffer. Neither \<^verbatim>\<open>hash.Hash\<close> nor \<^verbatim>\<open>bytes.Buffer\<close> returns an error from \<^verbatim>\<open>Write\<close>.
\<close>

definition mw_Write :: "bytes \<Rightarrow> writer \<Rightarrow> (int \<times> error option) \<times> writer" where
  "mw_Write p w = ((int (length p), None), w\<lparr>chsh := chsh w @ p, cbuf := cbuf w @ p\<rparr>)"

definition ctype_of :: "writer \<Rightarrow> string" where
  "ctype_of w = (if ContentType w = [] then ''application/octet-stream'' else ContentType w)"

text \<open>The function passed to \<^verbatim>\<open>w.once.Do\<close> in \<^verbatim>\<open>sendChunk\<close>; it returns what it leaves in \<^verbatim>\<open>err\<close>.\<close>

definition once_body :: "env \<Rightarrow> writer \<Rightarrow> error option \<times> writer" where
  "once_body E w =
     (let ctype = ctype_of w;
          e = startLargeFile E (calls w) (name w) ctype (Info w);
          w1 = w\<lparr>calls := calls w @ [StartLargeFile (name w) ctype (Info w) e]\<rparr>
      in case e of
           Some x \<Rightarrow> (Some x, w1)
         | None \<Rightarrow>
             (let w2 = w1\<lparr>file_set := True, ready := Open\<rparr>;
                  w3 = (if ConcurrentUploads w2 < 1 then w2\<lparr>ConcurrentUploads := 1\<rparr> else w2)
              in (None, spawn (nat (ConcurrentUploads w3)) w3)))"

text \<open>
  The \<^verbatim>\<open>select\<close> of \<^verbatim>\<open>sendChunk\<close>: the send succeeds when a goroutine takes the offered chunk;
  otherwise, when the context is cancelled, the other case fires. A send on a nil channel
  never succeeds; a send on a closed channel panics. When neither case can fire under the
  given schedule the foreground stays blocked.
\<close>

definition sendChunk :: "env \<Rightarrow> writer \<Rightarrow> error option outcome" where
  "sendChunk E w0 =
     (case (if once_fired w0 then (None, w0) else once_body E (w0\<lparr>once_fired := True\<rparr>)) of
        (Some e, w) \<Rightarrow> Ret (Some e) w
      | (None, w) \<Rightarrow>
          (let c = \<lparr>chunk_id = cidx w + 1, chunk_size = int (length (cbuf w)),
                    chunk_sha1 = sha1_hex E (chsh w), chunk_buf = cbuf w\<rparr>
           in case ready w of
                Closed \<Rightarrow> Stuck Panicked w
              | NilChan \<Rightarrow>
                  (let w1 = yield E w
                   in if ctx_done w1 then Ret (Some ContextCanceled) w1 else Stuck Blocked w1)
              | Open \<Rightarrow>
                  (let w1 = yield E (w\<lparr>offer := Some c\<rparr>)
                   in case offer w1 of
                        None \<Rightarrow>
                          Ret None (w1\<lparr>handed := handed w1 @ [c], cidx := cidx w1 + 1,
                                      chsh := [], cbuf := []\<rparr>)
                      | Some _ \<Rightarrow>
                          (if ctx_done w1 then Ret (Some ContextCanceled) (w1\<lparr>offer := None\<rparr>)
                           else Stuck Blocked w1))))"


subsection \<open>What a goroutine step leaves alone\<close>

lemma setErr_private [simp]:
  "cbuf (setErr e w) = cbuf w" "csize (setErr e w) = csize w" "cidx (setErr e w) = cidx w"
  "chsh (setErr e w) = chsh w" "once_fired (setErr e w) = once_fired w"
  "done_fired (setErr e w) = done_fired w" "ready (setErr e w) = ready w"
  "file_set (setErr e w) = file_set w" "handed (setErr e w) = handed w"
  "o_f (setErr e w) = o_f w" "name (setErr e w) = name w"
  "ContentType (setErr e w) = ContentType w" "Info (setErr e w) = Info w"
  "ConcurrentUploads (setErr e w) = ConcurrentUploads w"
  "workers (setErr e w) = workers w" "calls (setErr e w) = calls w"
  "wg (setErr e w) = wg w" "offer (setErr e w) = offer w" "sched (setErr e w) = sched w"
  by (simp_all add: setErr_def split: option.splits)

lemma wstep_private [simp]:
  "cbuf (wstep E i w) = cbuf w" "csize (wstep E i w) = csize w" "cidx (wstep E i w) = cidx w"
  "chsh (wstep E i w) = chsh w" "once_fired (wstep E i w) = once_fired w"
  "done_fired (wstep E i w) = done_fired w" "ready (wstep E i w) = ready w"
  "file_set (wstep E i w) = file_set w" "handed (wstep E i w) = handed w"
  "o_f (wstep E i w) = o_f w" "name (wstep E i w) = name w"
  "ContentType (wstep E i w) = ContentType w" "Info (wstep E i w) = Info w"
  "ConcurrentUploads (wstep E i w) = ConcurrentUploads w"
  "sched (wstep E i w) = sched w"
  by (simp_all add: wstep_def set_worker_def Let_def
        split: wstate.splits sum.splits option.splits prod.splits)

lemma wsteps_private [simp]:
  "cbuf (wsteps E js w) = cbuf w" "csize (wsteps E js w) = csize w"
  "cidx (wsteps E js w) = cidx w" "chsh (wsteps E js w) = chsh w"
  "once_fired (wsteps E js w) = once_fired w" "done_fired (wsteps E js w) = done_fired w"
  "ready (wsteps E js w) = ready w" "file_set (wsteps E js w) = file_set w"
  "handed (wsteps E js w) = handed w" "o_f (wsteps E js w) = o_f w"
  "name (wsteps E js w) = name w" "ContentType (wsteps E js w) = ContentType w"
  "Info (wsteps E js w) = Info w" "ConcurrentUploads (wsteps E js w) = ConcurrentUploads w"
  "sched (wsteps E js w) = sched w"
  by (induction js arbitrary: w; simp)+

lemma yield_private [simp]:
  "cbuf (yield E w) = cbuf w" "csize (yield E w) = csize w" "cidx (yield E w) = cidx w"
  "chsh (yield E w) = chsh w" "once_fired (yield E w) = once_fired w"
  "done_fired (yield E w) = done_fired w" "ready (yield E w) = ready w"
  "file_set (yield E w) = file_set w" "handed (yield E w) = handed w"
  "o_f (yield E w) = o_f w" "name (yield E w) = name w"
  "ContentType (yield E w) = ContentType w" "Info (yield E w) = Info w"
  "ConcurrentUploads (yield E w) = ConcurrentUploads w"
  by (simp_all add: yield_def split: list.splits)

lemma spawn_private [simp]:
  "cbuf (spawn n w) = cbuf w" "csize (spawn n w) = csize w" "cidx (spawn n w) = cidx w"
  "chsh (spawn n w) = chsh w" "once_fired (spawn n w) = once_fired w"
  "done_fired (spawn n w) = done_fired w" "ready (spawn n w) = ready w"
  "file_set (spawn n w) = file_set w" "handed (spawn n w) = handed w"
  "o_f (spawn n w) = o_f w" "name (spawn n w) = name w"
  "ContentType (spawn n w) = ContentType w" "Info (spawn n w) = Info w"
  "ConcurrentUploads (spawn n w) = ConcurrentUploads w"
  "err (spawn n w) = err w" "ctx_done (spawn n w) = ctx_done w"
  "cancels (spawn n w) = cancels w" "calls (spawn n w) = calls w"
  "wg (spawn n w) = wg w" "offer (spawn n w) = offer w" "sched (spawn n w) = sched w"
  by (induction n arbitrary: w; simp add: thread_def)+

lemma sendChunk_sent:
  assumes "sendChunk E w = Ret None w'"
  shows "cbuf w' = [] \<and> csize w' = csize w"
  using assms
  by (auto simp: sendChunk_def once_body_def Let_def thread_def
        split: if_splits option.splits prod.splits chan.splits)

subsection \<open>Write\<close>

text \<open>
  \<^verbatim>\<open>p[:left]\<close> panics when \<open>left\<close> is negative. The recursive call is on \<^verbatim>\<open>p[left:]\<close>, which
  is as long as \<open>p\<close> when \<open>left = 0\<close>; then the buffer was full and is empty afterwards.
\<close>

function Write :: "env \<Rightarrow> bytes \<Rightarrow> writer \<Rightarrow> (int \<times> error option) outcome" where
  "Write E p w0 =
     (let w1 = yield E w0
      in case getErr w1 of
           Some e \<Rightarrow> Ret (0, Some e) w1
         | None \<Rightarrow>
             (let w2 = (if csize w1 = 0 then w1\<lparr>csize := 100000000\<rparr> else w1);
                  left = csize w2 - int (length (cbuf w2))
              in if int (length p) < left then (case mw_Write p w2 of (r, w3) \<Rightarrow> Ret r w3)
                 else if left < 0 then Stuck Panicked w2
                 else
                   (case mw_Write (take (nat left) p) w2 of
                      ((i, Some e), w3) \<Rightarrow> Ret (i, Some e) (setErr (Some e) w3)
                    | ((i, None), w3) \<Rightarrow>
                        (case sendChunk E w3 of
                           Ret (Some e) w4 \<Rightarrow>
                             (let w5 = setErr (Some e) w4 in Ret (i, getErr w5) w5)
                         | Ret None w4 \<Rightarrow>
                             (case Write E (drop (nat left) p) w4 of
                                Ret (k, e) w5 \<Rightarrow> Ret (i + k, e) (setErr e w5)
                              | Stuck r w5 \<Rightarrow> Stuck r w5)
                         | Stuck r w4 \<Rightarrow> Stuck r w4))))"
  by pat_completeness auto
termination
proof (relation "measure (\<lambda>(E, p, w).
    2 * length p +
    (if (if csize w = 0 then 100000000 else csize w) \<le> int (length (cbuf w)) then 1 else 0))",
    goal_cases)
  case 1
  show ?case by simp
next
  case (2 E p w0 w1 w2 left x y i e w3 w4)
  then show ?case
    by (auto simp: mw_Write_def dest!: sendChunk_sent split: if_splits)
qed


declare Write.simps [simp del]

subsection \<open>simpleWriteFile\<close>

text \<open>
  The loop at \<^verbatim>\<open>redo\<close>: the reader \<open>r\<close> is created once, before the label, and the same
  reader is passed to every attempt; \<^verbatim>\<open>r.Size()\<close> is the length of the underlying bytes
  (\<open>sz\<close>) whatever has been read. The source bounds the number of attempts nowhere, so
  the loop may run forever: not returning is \<open>None\<close>.
\<close>

partial_function (option) simple_redo ::
  "env \<Rightarrow> nat \<Rightarrow> bytes \<Rightarrow> int \<Rightarrow> string \<Rightarrow> string \<Rightarrow> writer \<Rightarrow> (error option \<times> writer) option"
where
  "simple_redo E ue r sz ctype sha1 w =
     (case uploadFile E (calls w) ue r sz (name w) ctype sha1 (Info w) of
        (k, res) \<Rightarrow>
          (let w1 = w\<lparr>calls := calls w @
                      [UploadFile ue r sz (name w) ctype sha1 (Info w) k res]\<rparr>
           in case res of
                Inl e \<Rightarrow>
                  (if reupload E (Some e)
                   then
                     (let u = getUploadURL E (calls w1);
                          w2 = w1\<lparr>calls := calls w1 @ [GetUploadURL u]\<rparr>
                      in case u of
                           Inl e2 \<Rightarrow> Some (Some e2, w2)
                         | Inr ue2 \<Rightarrow> simple_redo E ue2 (drop k r) sz ctype sha1 w2)
                   else Some (Some e, w1))
              | Inr f \<Rightarrow> Some (None, w1\<lparr>o_f := Some f\<rparr>)))"

declare simple_redo.simps [code]

definition simpleWriteFile :: "env \<Rightarrow> writer \<Rightarrow> (error option \<times> writer) option" where
  "simpleWriteFile E w =
     (let u = getUploadURL E (calls w);
          w1 = w\<lparr>calls := calls w @ [GetUploadURL u]\<rparr>
      in case u of
           Inl e \<Rightarrow> Some (Some e, w1)
         | Inr ue \<Rightarrow>
             (let sha1 = sha1_hex E (chsh w1);
                  ctype = ctype_of w1;
                  r = cbuf w1
              in simple_redo E ue r (int (length r)) ctype sha1 w1))"

subsection \<open>Close\<close>

text \<open>
  The end of the function passed to \<^verbatim>\<open>w.done.Do\<close> (lines 247 to 254):
  \<^verbatim>\<open>close(w.ready)\<close> panics on a nil or closed channel; \<^verbatim>\<open>w.wg.Wait()\<close> returns when the
  counter is zero and blocks otherwise; a call of \<^verbatim>\<open>w.file.finishLargeFile\<close> with
  \<^verbatim>\<open>w.file\<close> unset panics.
\<close>

definition close_finish :: "env \<Rightarrow> writer \<Rightarrow> unit outcome" where
  "close_finish E w1 =
     (if ready w1 \<noteq> Open then Stuck Panicked w1
      else
        (let w2 = yield E (w1\<lparr>ready := Closed\<rparr>)
         in if wg w2 \<noteq> 0 then Stuck Blocked w2
            else if \<not> file_set w2 then Stuck Panicked w2
            else
              (let w3 = yield E w2;
                   f = finishLargeFile E (calls w3);
                   w4 = w3\<lparr>calls := calls w3 @ [FinishLargeFile f]\<rparr>
               in case f of
                    Inl e \<Rightarrow> Ret () (setErr (Some e) w4)
                  | Inr h \<Rightarrow> Ret () (w4\<lparr>o_f := Some h\<rparr>))))"

text \<open>The function passed to \<^verbatim>\<open>w.done.Do\<close>.\<close>

definition close_body :: "env \<Rightarrow> writer \<Rightarrow> unit outcome" where
  "close_body E w =
     (if cidx w = 0
      then (let w0 = yield E w
            in case simpleWriteFile E w0 of
                 None \<Rightarrow> Stuck Diverged w0
               | Some (e, w1) \<Rightarrow> Ret () (setErr e w1))
      else if 0 < length (cbuf w)
      then (case sendChunk E w of
              Stuck r w1 \<Rightarrow> Stuck r w1
            | Ret (Some e) w1 \<Rightarrow> Ret () (setErr (Some e) w1)
            | Ret None w1 \<Rightarrow> close_finish E w1)
      else close_finish E w)"

definition Close :: "env \<Rightarrow> writer \<Rightarrow> error option outcome" where
  "Close E w0 =
     (case (if done_fired w0 then Ret () w0 else close_body E (w0\<lparr>done_fired := True\<rparr>)) of
        Stuck r w \<Rightarrow> Stuck r w
      | Ret _ w \<Rightarrow> (let w1 = yield E w in Ret (getErr w1) w1))"

subsection \<open>Sessions\<close>

datatype op = DoWrite bytes | DoClose

datatype ret = WriteRet int "error option" | CloseRet "error option"

text \<open>The caller's calls, one after the other; a call that does not return ends the run.\<close>

fun run_ops :: "env \<Rightarrow> op list \<Rightarrow> writer \<Rightarrow> ret list outcome" where
  "run_ops E [] w = Ret [] w"
| "run_ops E (DoWrite p # ops) w =
     (case Write E p w of
        Stuck r w1 \<Rightarrow> Stuck r w1
      | Ret (n, e) w1 \<Rightarrow>
          (case run_ops E ops w1 of
             Stuck r w2 \<Rightarrow> Stuck r w2
           | Ret rs w2 \<Rightarrow> Ret (WriteRet n e # rs) w2))"
| "run_ops E (DoClose # ops) w =
     (case Close E w of
        Stuck r w1 \<Rightarrow> Stuck r w1
      | Ret e w1 \<Rightarrow>
          (case run_ops E ops w1 of
             Stuck r w2 \<Rightarrow> Stuck r w2
           | Ret rs w2 \<Rightarrow> Ret (CloseRet e # rs) w2))"

text \<open>
  A writer on which nothing has been called yet: an empty buffer and hash state, no
  chunk sent, no error, no goroutine, no remote call. The configuration
  (\<^verbatim>\<open>ConcurrentUploads\<close>, \<^verbatim>\<open>ContentType\<close>, \<^verbatim>\<open>Info\<close>, the object's name), the threshold
  \<open>csize\<close> (zero stands for the default) and the schedule are free.
\<close>

definition fresh :: "writer \<Rightarrow> bool" where
  "fresh w \<longleftrightarrow>
     0 \<le> csize w \<and> \<not> ctx_done w \<and> cancels w = 0 \<and> ready w = NilChan \<and> offer w = None \<and>
     wg w = 0 \<and> \<not> once_fired w \<and> \<not> done_fired w \<and> \<not> file_set w \<and> o_f w = None \<and>
     cbuf w = [] \<and> cidx w = 0 \<and> chsh w = [] \<and> err w = None \<and> workers w = [] \<and>
     calls w = [] \<and> handed w = []"

definition new_writer :: "string \<Rightarrow> int \<Rightarrow> int \<Rightarrow> nat list list \<Rightarrow> writer" where
  "new_writer nm cs conc sch =
     \<lparr>ConcurrentUploads = conc, ContentType = [], Info = [], csize = cs,
      ctx_done = False, cancels = 0, ready = NilChan, offer = None, wg = 0,
      once_fired = False, done_fired = False, file_set = False, o_f = None, name = nm,
      cbuf = [], cidx = 0, chsh = [], err = None, workers = [], calls = [], handed = [],
      sched = sch\<rparr>"

text \<open>The threshold in force: \<^verbatim>\<open>if w.csize == 0 { w.csize = 1e8 }\<close>.\<close>

definition threshold :: "writer \<Rightarrow> int" where
  "threshold w = (if csize w = 0 then 100000000 else csize w)"


text \<open>
  A remote service that never fails: every call succeeds, an upload call reads its reader
  to the end and reports that many bytes. The digest is left uninterpreted; here it
  is the identity.
\<close>

definition honest :: env where
  "honest =
     \<lparr>startLargeFile = (\<lambda>cs nm ct inf. None),
      getUploadPartURL = (\<lambda>cs. Inr (length cs)),
      uploadPart = (\<lambda>cs fc r sha sz i. (length r, int (length r), None)),
      finishLargeFile = (\<lambda>cs. Inr 7),
      getUploadURL = (\<lambda>cs. Inr (length cs)),
      uploadFile = (\<lambda>cs ue r sz nm ct sha inf. (length r, Inr 9)),
      reupload = (\<lambda>e. False),
      sha1_hex = (\<lambda>b. b)\<rparr>"

text \<open>The first non-nil error of a sequence of \<^verbatim>\<open>setErr\<close> arguments.\<close>

fun first_error :: "error option list \<Rightarrow> error option" where
  "first_error [] = None"
| "first_error (None # es) = first_error es"
| "first_error (Some e # es) = Some e"

text \<open>
  Abbreviations for the proofs about \<open>Write\<close>: \<open>room\<close> is \<^verbatim>\<open>left\<close>, and \<open>filled\<close> is the
  state in which \<open>Write\<close> calls \<open>sendChunk\<close>, the buffer filled up to the threshold.
\<close>

definition room :: "writer \<Rightarrow> int" where
  "room w = threshold w - int (length (cbuf w))"

definition filled :: "env \<Rightarrow> bytes \<Rightarrow> writer \<Rightarrow> writer" where
  "filled E p w =
     (yield E w)\<lparr>csize := threshold w,
                 chsh := chsh w @ take (nat (room w)) p, cbuf := cbuf w @ take (nat (room w)) p\<rparr>"

text \<open>
  The chunking as the specification words it: the stream is cut at consecutive multiples
  of the threshold \<open>n\<close>; \<open>spec_chunks\<close> are the full pieces, \<open>spec_rest\<close> is the
  trailing piece, shorter than \<open>n\<close>; \<open>spec_parts\<close> numbers pieces from \<open>k + 1\<close> and adds
  size and digest.
\<close>

fun spec_chunks :: "nat \<Rightarrow> bytes \<Rightarrow> bytes list" where
  "spec_chunks n bs =
     (if n = 0 \<or> length bs < n then [] else take n bs # spec_chunks n (drop n bs))"

fun spec_rest :: "nat \<Rightarrow> bytes \<Rightarrow> bytes" where
  "spec_rest n bs = (if n = 0 \<or> length bs < n then bs else spec_rest n (drop n bs))"

declare spec_chunks.simps [simp del] spec_rest.simps [simp del]

fun spec_parts :: "env \<Rightarrow> int \<Rightarrow> bytes list \<Rightarrow> chunk list" where
  "spec_parts E k [] = []"
| "spec_parts E k (b # bs) =
     \<lparr>chunk_id = k + 1, chunk_size = int (length b), chunk_sha1 = sha1_hex E b, chunk_buf = b\<rparr>
       # spec_parts E (k + 1) bs"

text \<open>Kinds of remote calls.\<close>

fun is_multipart :: "call \<Rightarrow> bool" where
  "is_multipart (StartLargeFile nm ct md e) = True"
| "is_multipart (GetUploadPartURL u) = True"
| "is_multipart (UploadPart fc r sha sz i k n e) = True"
| "is_multipart (FinishLargeFile f) = True"
| "is_multipart (GetUploadURL u) = False"
| "is_multipart (UploadFile ue r sz nm ct sha md k f) = False"

fun is_start :: "call \<Rightarrow> bool" where
  "is_start (StartLargeFile nm ct md e) = True"
| "is_start c = False"

text \<open>
  Invariants of the foreground: the chunk index counts the chunks handed off and the
  \<open>i\<close>-th of them (from zero) has id \<open>i + 1\<close>; the history holds one
  \<^verbatim>\<open>startLargeFile\<close> call when the first \<^verbatim>\<open>sync.Once\<close> has fired and none before, and
  no chunk is handed off before it has fired.
\<close>

definition starts :: "call list \<Rightarrow> nat" where
  "starts cs = length (filter is_start cs)"

definition ids_ok :: "writer \<Rightarrow> bool" where
  "ids_ok w \<longleftrightarrow>
     cidx w = int (length (handed w)) \<and>
     (\<forall>i<length (handed w). chunk_id (handed w ! i) = int i + 1)"

definition start_ok :: "writer \<Rightarrow> bool" where
  "start_ok w \<longleftrightarrow>
     starts (calls w) = (if once_fired w then 1 else 0) \<and> (handed w \<noteq> [] \<longrightarrow> once_fired w)"

text \<open>
  In a run of writes alone (whatever it ends in) the finalizer has not run and every
  chunk handed off holds exactly as many bytes as the threshold.
\<close>

definition full_ok :: "writer \<Rightarrow> bool" where
  "full_ok w \<longleftrightarrow>
     (\<forall>c\<in>set (handed w). int (length (chunk_buf c)) = threshold w \<and> chunk_size c = threshold w) \<and>
     0 < threshold w \<and> \<not> done_fired w"

text \<open>
  The object the remote service has after the calls \<open>cs\<close>. The service is not part of
  the sources; following the specification, it keeps every part whose upload succeeded
  (the reported byte count equals the announced size, no error) in the slot of its id,
  holding the bytes that call read, and assembles the parts in id order.
\<close>

fun part_of :: "call \<Rightarrow> (int \<times> bytes) option" where
  "part_of (UploadPart fc r sha sz i k n e) =
     (if n = sz \<and> e = None then Some (i, take k r) else None)"
| "part_of c = None"

definition assembled :: "call list \<Rightarrow> bytes" where
  "assembled cs = concat (map snd (sort_key fst (List.map_filter part_of cs)))"

text \<open>
  The scenario of the specification: threshold 10, two goroutines, one \<^verbatim>\<open>Write\<close> of 25
  bytes, then \<^verbatim>\<open>Close\<close>, against the service that never fails. The schedule lets goroutine
  0 take chunks 1 and 3 and goroutine 1 take chunk 2.
\<close>

definition scenario_sched :: "nat list list" where
  "scenario_sched = [[], [0, 0, 0, 1, 1], [0], [1], [], [0, 1], [0, 0, 1], [], []]"

definition scenario :: "ret list outcome" where
  "scenario = run_ops honest [DoWrite ''ABCDEFGHIJKLMNOPQRSTUVWXY'', DoClose]
     (new_writer ''obj'' 10 2 scenario_sched)"

text \<open>Two partitions of the same 25 bytes, written under different schedules.\<close>

definition partition_sched1 :: "nat list list" where
  "partition_sched1 = [[], [0, 0, 0], [0], [0], []]"

definition partition_sched2 :: "nat list list" where
  "partition_sched2 = [[], [], [1, 1, 1], [], [1], [1], []]"

definition partition_run1 :: "ret list outcome" where
  "partition_run1 = run_ops honest (map DoWrite [''ABCDEFGHIJKLMNOPQRSTUVWXY''])
     (new_writer ''obj'' 10 2 partition_sched1)"

definition partition_run2 :: "ret list outcome" where
  "partition_run2 = run_ops honest (map DoWrite [''ABCDE'', ''FGHIJKLMNOPQ'', ''RSTUVWXY''])
     (new_writer ''obj'' 10 2 partition_sched2)"

text \<open>
  Three more runs with threshold 10 and one write of exactly 10 bytes, then \<^verbatim>\<open>Close\<close>.
  \<open>boundary_run\<close>: one goroutine, the service never fails.
  \<open>retry_run\<close>: one goroutine; the first \<^verbatim>\<open>uploadPart\<close> reads the whole reader and fails
  with an error the retry predicate accepts; after that the service checks the length of
  what it reads against the announced size.
  \<open>late_run\<close>: two goroutines; only the first request for an upload URL succeeds;
  goroutine 1 is not scheduled before \<^verbatim>\<open>Close\<close> returns. \<open>late_close_run\<close>: the same, but
  goroutine 1 takes its first step after \<^verbatim>\<open>finishLargeFile\<close> and before \<^verbatim>\<open>Close\<close> reads
  the error cell. \<open>twice_closed\<close>: the same, but goroutine 1 takes its first step after
  \<^verbatim>\<open>Close\<close> has returned, and \<^verbatim>\<open>Close\<close> is called again.
\<close>

fun is_upload_part :: "call \<Rightarrow> bool" where
  "is_upload_part (UploadPart fc r sha sz i k n e) = True"
| "is_upload_part c = False"

fun is_part_url :: "call \<Rightarrow> bool" where
  "is_part_url (GetUploadPartURL u) = True"
| "is_part_url c = False"

definition flaky :: env where
  "flaky = honest
     \<lparr>uploadPart := (\<lambda>cs fc r sha sz i.
        if filter is_upload_part cs = [] then (length r, 0, Some (RemoteError ''503''))
        else if int (length r) = sz then (length r, sz, None)
        else (length r, int (length r), Some (RemoteError ''400''))),
      reupload := (\<lambda>e. e = Some (RemoteError ''503''))\<rparr>"

definition retry_run :: "ret list outcome" where
  "retry_run = run_ops flaky [DoWrite ''ABCDEFGHIJ'', DoClose]
     (new_writer ''obj'' 10 1 [[], [0, 0, 0], [], [0, 0, 0], [], []])"

definition late :: env where
  "late = honest
     \<lparr>getUploadPartURL := (\<lambda>cs.
        if filter is_part_url cs = [] then Inr 1 else Inl (RemoteError ''no upload URL''))\<rparr>"

definition late_run :: "ret list outcome" where
  "late_run = run_ops late [DoWrite ''ABCDEFGHIJ'', DoClose]
     (new_writer ''obj'' 10 2 [[], [0, 0, 0], [0], [0], [], []])"

definition late_close_run :: "ret list outcome" where
  "late_close_run = run_ops late [DoWrite ''ABCDEFGHIJ'', DoClose]
     (new_writer ''obj'' 10 2 [[], [0, 0, 0], [0], [0], [], [1]])"

definition twice_closed :: "ret list outcome" where
  "twice_closed = run_ops late [DoWrite ''ABCDEFGHIJ'', DoClose, DoClose]
     (new_writer ''obj'' 10 2 [[], [0, 0, 0], [0], [0], [], [], [1]])"

definition boundary_run :: "ret list outcome" where
  "boundary_run = run_ops honest [DoWrite ''ABCDEFGHIJ'', DoClose]
     (new_writer ''obj'' 10 1 [[], [0, 0, 0], [0], [0], [], []])"


section \<open>Properties\<close>

subsection \<open>The error cell\<close>

lemma setErr_None [simp]: "setErr None w = w"
  by (simp add: setErr_def)

lemma setErr_Some:
  "err w = None \<Longrightarrow>
     setErr (Some e) w = w\<lparr>err := Some e, ctx_done := True, cancels := cancels w + 1\<rparr>"
  by (simp add: setErr_def)

lemma setErr_recorded: "err w \<noteq> None \<Longrightarrow> setErr e w = w"
  by (cases e) (auto simp: setErr_def)

lemma fold_setErr_recorded: "err w \<noteq> None \<Longrightarrow> fold setErr es w = w"
  by (induction es) (simp_all add: setErr_recorded)

lemma fold_setErr_first:
  "err w = None \<Longrightarrow>
     err (fold setErr es w) = first_error es \<and>
     cancels (fold setErr es w) = cancels w + (if first_error es = None then 0 else 1)"
proof (induction es arbitrary: w)
  case Nil
  then show ?case by simp
next
  case (Cons a es)
  show ?case
  proof (cases a)
    case None
    with Cons show ?thesis by simp
  next
    case (Some x)
    let ?w = "w\<lparr>err := Some x, ctx_done := True, cancels := cancels w + 1\<rparr>"
    have s: "setErr a w = ?w" using Some Cons.prems by (simp add: setErr_Some)
    have "fold setErr es ?w = ?w" by (rule fold_setErr_recorded) simp
    with s Some show ?thesis by simp
  qed
qed

text \<open>
  Claim C5. \<^verbatim>\<open>setErr(nil)\<close> changes nothing. On a writer with no error recorded,
  \<^verbatim>\<open>setErr(e)\<close> records \<open>e\<close> and calls \<^verbatim>\<open>cancel\<close> once. On a writer with an error
  recorded, every \<^verbatim>\<open>setErr\<close> changes nothing. So over any sequence of calls the recorded
  error is the first non-nil argument and is never overwritten, and \<^verbatim>\<open>cancel\<close> is called
  once if there is such an argument and not at all otherwise.
\<close>

theorem setErr_first_error_wins:
  "setErr None w = w \<and>
   (err w = None \<longrightarrow>
      setErr (Some e) w = w\<lparr>err := Some e, ctx_done := True, cancels := cancels w + 1\<rparr>) \<and>
   (err w \<noteq> None \<longrightarrow> setErr e' w = w \<and> fold setErr es w = w) \<and>
   (err w = None \<longrightarrow>
      err (fold setErr es w) = first_error es \<and>
      cancels (fold setErr es w) = cancels w + (if first_error es = None then 0 else 1))"
  using fold_setErr_first [of w es] fold_setErr_recorded [of w es] setErr_recorded [of w e']
    setErr_Some [of w e]
  by simp

theorem setErr_first_error_wins_witness:
  "err (new_writer ''obj'' 10 2 []) = None \<and>
   err (fold setErr [None, Some (RemoteError ''a''), Some (RemoteError ''b''), None]
          (new_writer ''obj'' 10 2 [])) = Some (RemoteError ''a'') \<and>
   cancels (fold setErr [None, Some (RemoteError ''a''), Some (RemoteError ''b''), None]
          (new_writer ''obj'' 10 2 [])) = 1"
  using setErr_first_error_wins [of "new_writer ''obj'' 10 2 []" undefined undefined
      "[None, Some (RemoteError ''a''), Some (RemoteError ''b''), None]"]
  by (simp add: new_writer_def)

subsection \<open>Goroutine steps and the error cell\<close>

lemma wstep_err_sticky: "err w = Some e \<Longrightarrow> err (wstep E i w) = Some e"
  by (simp add: wstep_def set_worker_def setErr_def Let_def
        split: wstate.splits sum.splits option.splits prod.splits)

lemma wsteps_err_sticky: "err w = Some e \<Longrightarrow> err (wsteps E js w) = Some e"
  by (induction js arbitrary: w) (simp_all add: wstep_err_sticky)

lemma yield_err_sticky: "err w = Some e \<Longrightarrow> err (yield E w) = Some e"
  by (simp add: yield_def wsteps_err_sticky split: list.splits)

lemma yield_idle: "sched w = [] \<Longrightarrow> yield E w = w"
  by (simp add: yield_def)

subsection \<open>Unfolding Write\<close>

lemma threshold_yield [simp]: "threshold (yield E w) = threshold w"
  by (simp add: threshold_def)

lemma yield_csize_id [simp]: "(yield E w)\<lparr>csize := csize w\<rparr> = yield E w"
proof -
  have "(yield E w)\<lparr>csize := csize (yield E w)\<rparr> = yield E w" by simp
  then show ?thesis by (simp only: yield_private)
qed

lemma Write_unfold:
  "Write E p w =
     (case err (yield E w) of
        Some e \<Rightarrow> Ret (0, Some e) (yield E w)
      | None \<Rightarrow>
          if int (length p) < room w
          then Ret (int (length p), None)
                 ((yield E w)\<lparr>csize := threshold w, chsh := chsh w @ p, cbuf := cbuf w @ p\<rparr>)
          else if room w < 0 then Stuck Panicked ((yield E w)\<lparr>csize := threshold w\<rparr>)
          else
            (case sendChunk E (filled E p w) of
               Ret (Some e) w4 \<Rightarrow> Ret (room w, err (setErr (Some e) w4)) (setErr (Some e) w4)
             | Ret None w4 \<Rightarrow>
                 (case Write E (drop (nat (room w)) p) w4 of
                    Ret (k, e) w5 \<Rightarrow> Ret (room w + k, e) (setErr e w5)
                  | Stuck r w5 \<Rightarrow> Stuck r w5)
             | Stuck r w4 \<Rightarrow> Stuck r w4))"
  apply (subst Write.simps)
  apply (simp add: Let_def getErr_def mw_Write_def room_def threshold_def filled_def
      cong: outcome.case_cong option.case_cong prod.case_cong if_cong)
  done

lemma Write_induct [case_names Write]:
  assumes "\<And>E p w.
     (\<And>w4. err (yield E w) = None \<Longrightarrow> 0 \<le> room w \<Longrightarrow> room w \<le> int (length p) \<Longrightarrow>
            sendChunk E (filled E p w) = Ret None w4 \<Longrightarrow> P E (drop (nat (room w)) p) w4)
     \<Longrightarrow> P E p w"
  shows "P E p w"
proof (induction E p w rule: Write.induct)
  case (1 E p w0)
  show ?case
  proof (rule assms)
    fix w4
    assume a: "err (yield E w0) = None" "0 \<le> room w0" "room w0 \<le> int (length p)"
      "sendChunk E (filled E p w0) = Ret None w4"
    define w2 where "w2 = (if csize (yield E w0) = 0 then (yield E w0)\<lparr>csize := 100000000\<rparr>
       else yield E w0)"
    have w2: "w2 = (yield E w0)\<lparr>csize := threshold w0\<rparr>"
      by (simp add: w2_def threshold_def)
    have left: "csize w2 - int (length (cbuf w2)) = room w0"
      by (simp add: w2 room_def)
    have "P E (drop (nat (csize w2 - int (length (cbuf w2)))) p) w4"
    proof (rule 1 [OF refl _ w2_def refl _ _ _ refl refl _ refl])
      show "getErr (yield E w0) = None" using a by (simp add: getErr_def)
      show "\<not> int (length p) < csize w2 - int (length (cbuf w2))" using a left by simp
      show "\<not> csize w2 - int (length (cbuf w2)) < 0" using a left by simp
      show "(((int (length (take (nat (room w0)) p))), None), filled E p w0)
          = mw_Write (take (nat (csize w2 - int (length (cbuf w2)))) p) w2"
        by (simp add: mw_Write_def filled_def w2 room_def)
      show "sendChunk E (filled E p w0) = Ret None w4" by (rule a)
    qed
    then show "P E (drop (nat (room w0)) p) w4" by (simp only: left)
  qed
qed

text \<open>
  Claim C9. A \<^verbatim>\<open>Write\<close> on a writer whose error cell holds \<open>e\<close> returns \<open>(0, e)\<close>. The state
  it returns is the state the goroutines' own steps at the scheduling point produce: the
  buffer, the hash state, the chunk index, the threshold, the list of chunks handed off,
  both \<^verbatim>\<open>sync.Once\<close>, the channel and the recorded error are as before; and when no goroutine
  is scheduled the state is unchanged altogether.
\<close>

theorem Write_after_error:
  "getErr w = Some e \<Longrightarrow>
     Write E p w = Ret (0, Some e) (yield E w) \<and>
     cbuf (yield E w) = cbuf w \<and> chsh (yield E w) = chsh w \<and> cidx (yield E w) = cidx w \<and>
     csize (yield E w) = csize w \<and> handed (yield E w) = handed w \<and>
     once_fired (yield E w) = once_fired w \<and> done_fired (yield E w) = done_fired w \<and>
     ready (yield E w) = ready w \<and> err (yield E w) = Some e \<and>
     (sched w = [] \<longrightarrow> Write E p w = Ret (0, Some e) w)"
  by (simp add: Write_unfold [of E p w] getErr_def yield_err_sticky yield_idle)

theorem Write_after_error_witness:
  "getErr ((new_writer ''obj'' 10 2 [])\<lparr>err := Some (RemoteError ''boom'')\<rparr>)
     = Some (RemoteError ''boom'') \<and>
   Write honest ''ABCDEFGHIJKLMNOPQRSTUVWXY''
       ((new_writer ''obj'' 10 2 [])\<lparr>err := Some (RemoteError ''boom'')\<rparr>)
     = Ret (0, Some (RemoteError ''boom''))
         ((new_writer ''obj'' 10 2 [])\<lparr>err := Some (RemoteError ''boom'')\<rparr>)"
  using Write_after_error [of "(new_writer ''obj'' 10 2 [])\<lparr>err := Some (RemoteError ''boom'')\<rparr>"
      "RemoteError ''boom''" honest "''ABCDEFGHIJKLMNOPQRSTUVWXY''"]
  by (simp add: new_writer_def getErr_def yield_def)


subsection \<open>The chunking of the specification\<close>

lemma spec_short: "length bs < n \<Longrightarrow> spec_chunks n bs = [] \<and> spec_rest n bs = bs"
  by (simp add: spec_chunks.simps spec_rest.simps)

lemma spec_long:
  "0 < n \<Longrightarrow> n \<le> length bs \<Longrightarrow>
     spec_chunks n bs = take n bs # spec_chunks n (drop n bs) \<and>
     spec_rest n bs = spec_rest n (drop n bs)"
  by (subst spec_chunks.simps, subst spec_rest.simps) simp

lemma spec_concat: "concat (spec_chunks n bs) @ spec_rest n bs = bs"
  by (induction n bs rule: spec_chunks.induct)
     (subst spec_chunks.simps, subst spec_rest.simps, simp)

lemma spec_chunks_length: "c \<in> set (spec_chunks n bs) \<Longrightarrow> length c = n"
  by (induction n bs rule: spec_chunks.induct)
     (subst (asm) spec_chunks.simps, auto split: if_splits)

lemma spec_rest_length: "0 < n \<Longrightarrow> length (spec_rest n bs) < n"
  by (induction n bs rule: spec_rest.induct)
     (subst spec_rest.simps, auto)

lemma spec_chunks_count: "0 < n \<Longrightarrow> length (spec_chunks n bs) = length bs div n"
proof (induction n bs rule: spec_chunks.induct)
  case (1 n bs)
  show ?case
  proof (cases "length bs < n")
    case True
    then show ?thesis by (simp add: spec_short)
  next
    case False
    with 1 have "length (spec_chunks n (drop n bs)) = (length bs - n) div n" by simp
    moreover have "(length bs - n) div n + 1 = length bs div n"
      using False 1(2) by (simp add: le_div_geq)
    ultimately show ?thesis using False 1(2) by (simp add: spec_long)
  qed
qed

lemma spec_chunks_nth:
  "i < length (spec_chunks n bs) \<Longrightarrow> spec_chunks n bs ! i = take n (drop (i * n) bs)"
proof (induction n bs arbitrary: i rule: spec_chunks.induct)
  case (1 n bs)
  have big: "0 < n" "n \<le> length bs"
    using 1(2) by (auto simp: spec_chunks.simps [of n bs] split: if_splits)
  show ?case
  proof (cases i)
    case 0
    then show ?thesis using big by (simp add: spec_long)
  next
    case (Suc j)
    with 1(2) big have "j < length (spec_chunks n (drop n bs))" by (simp add: spec_long)
    with 1(1) big have "spec_chunks n (drop n bs) ! j = take n (drop (j * n) (drop n bs))"
      by simp
    then show ?thesis using Suc big by (simp add: spec_long add.commute)
  qed
qed

lemma spec_rest_drop: "0 < n \<Longrightarrow> spec_rest n bs = drop (length bs div n * n) bs"
proof (induction n bs rule: spec_rest.induct)
  case (1 n bs)
  show ?case
  proof (cases "length bs < n")
    case True
    then show ?thesis by (simp add: spec_short)
  next
    case False
    with 1 have "spec_rest n (drop n bs) = drop ((length bs - n) div n * n) (drop n bs)" by simp
    moreover have "(length bs - n) div n + 1 = length bs div n"
      using False 1(2) by (simp add: le_div_geq)
    then have "(length bs - n) div n * n + n = length bs div n * n"
      by (metis add.commute mult_Suc Suc_eq_plus1)
    ultimately show ?thesis using False 1(2) by (simp add: spec_long)
  qed
qed

lemma spec_append:
  "spec_chunks n (xs @ ys) = spec_chunks n xs @ spec_chunks n (spec_rest n xs @ ys) \<and>
   spec_rest n (xs @ ys) = spec_rest n (spec_rest n xs @ ys)"
proof (induction n xs rule: spec_chunks.induct)
  case (1 n xs)
  show ?case
  proof (cases "n = 0 \<or> length xs < n")
    case True
    then show ?thesis by (auto simp: spec_chunks.simps [of n xs] spec_rest.simps [of n xs])
  next
    case False
    then have big: "0 < n" "n \<le> length xs" "n \<le> length (xs @ ys)" by auto
    from 1 False have ih:
      "spec_chunks n (drop n xs @ ys) =
         spec_chunks n (drop n xs) @ spec_chunks n (spec_rest n (drop n xs) @ ys)"
      "spec_rest n (drop n xs @ ys) = spec_rest n (spec_rest n (drop n xs) @ ys)"
      by simp_all
    show ?thesis
      using spec_long [OF big(1,2)] spec_long [OF big(1,3)] ih big by simp
  qed
qed

lemma spec_parts_append:
  "spec_parts E k (xs @ ys) = spec_parts E k xs @ spec_parts E (k + int (length xs)) ys"
  by (induction xs arbitrary: k) (simp_all add: add.assoc)

lemma spec_parts_buf [simp]: "map chunk_buf (spec_parts E k bs) = bs"
  by (induction bs arbitrary: k) simp_all

lemma spec_parts_id: "map chunk_id (spec_parts E k bs) = map (\<lambda>i. k + 1 + int i) [0..<length bs]"
proof (induction bs arbitrary: k)
  case Nil
  then show ?case by simp
next
  case (Cons b bs)
  have "map (\<lambda>i. k + 1 + int i) [0..<Suc (length bs)]
      = (k + 1) # map (\<lambda>i. k + 1 + int (Suc i)) [0..<length bs]"
    by (simp only: upt_conv_Cons [of 0] map_Suc_upt [symmetric] list.map map_map o_def) simp
  with Cons [of "k + 1"] show ?case by (simp add: add.assoc add.commute)
qed


lemma sendChunk_sent_effect:
  assumes "sendChunk E w = Ret None w'"
  shows "handed w' = handed w @
           [\<lparr>chunk_id = cidx w + 1, chunk_size = int (length (cbuf w)),
             chunk_sha1 = sha1_hex E (chsh w), chunk_buf = cbuf w\<rparr>] \<and>
         cidx w' = cidx w + 1 \<and> cbuf w' = [] \<and> chsh w' = [] \<and> csize w' = csize w \<and>
         once_fired w' \<and> ready w' = Open \<and> done_fired w' = done_fired w"
  using assms
  by (auto simp: sendChunk_def once_body_def Let_def thread_def
        split: if_splits option.splits prod.splits chan.splits)

lemma sendChunk_unsent_effect:
  assumes "sendChunk E w = out" "out \<noteq> Ret None (state_of out)"
  shows "handed (state_of out) = handed w \<and> cidx (state_of out) = cidx w \<and>
         cbuf (state_of out) = cbuf w \<and> chsh (state_of out) = chsh w \<and>
         csize (state_of out) = csize w \<and> done_fired (state_of out) = done_fired w"
  using assms
  by (auto simp: sendChunk_def once_body_def Let_def thread_def
        split: if_splits option.splits prod.splits chan.splits)

lemma sendChunk_err_sticky: "err w = Some e \<Longrightarrow> err (state_of (sendChunk E w)) = Some e"
  by (auto simp: sendChunk_def once_body_def Let_def thread_def yield_err_sticky
        split: if_splits option.splits prod.splits chan.splits)

lemma setErr_err_sticky: "err w = Some e \<Longrightarrow> err (setErr x w) = Some e"
  by (simp add: setErr_recorded)

lemma setErr_err_set: "err (setErr (Some x) w) \<noteq> None"
  by (simp add: setErr_def)

lemma Write_err_sticky: "err w = Some e \<Longrightarrow> err (state_of (Write E p w)) = Some e"
  by (simp add: Write_unfold [of E p w] yield_err_sticky)

text \<open>A \<open>Write\<close> that leaves no error recorded took all of \<open>p\<close>.\<close>

lemma Write_char:
  assumes "Write E p w = Ret r w'" "err w' = None" "chsh w = cbuf w"
    "int (length (cbuf w)) < threshold w"
  shows "r = (int (length p), None) \<and>
         handed w' = handed w @
           spec_parts E (cidx w) (spec_chunks (nat (threshold w)) (cbuf w @ p)) \<and>
         cbuf w' = spec_rest (nat (threshold w)) (cbuf w @ p) \<and> chsh w' = cbuf w' \<and>
         cidx w' = cidx w + int (length (spec_chunks (nat (threshold w)) (cbuf w @ p))) \<and>
         threshold w' = threshold w \<and> done_fired w' = done_fired (yield E w)"
  using assms
proof (induction E p w arbitrary: r w' rule: Write_induct)
  case (Write E p w)
  let ?n = "nat (threshold w)"
  have n: "0 < threshold w" "int (length (cbuf w)) < int ?n"
    using Write.prems(4) by auto
  from Write.prems(1) have noerr: "err (yield E w) = None"
    using Write.prems(2) by (auto simp: Write_unfold [of E p w] split: option.splits)
  show ?case
  proof (cases "int (length p) < room w")
    case True
    then have short: "length (cbuf w @ p) < ?n" using n by (simp add: room_def)
    from True Write.prems(1) noerr have
      "r = (int (length p), None)"
      "w' = (yield E w)\<lparr>csize := threshold w, chsh := chsh w @ p, cbuf := cbuf w @ p\<rparr>"
      by (auto simp: Write_unfold [of E p w])
    then show ?thesis
      using spec_short [OF short] Write.prems(3) n by (simp add: threshold_def)
  next
    case False
    then have room: "0 \<le> room w" "room w \<le> int (length p)"
      using n by (simp_all add: room_def)
    have fill: "cbuf (filled E p w) = cbuf w @ take (nat (room w)) p"
      "chsh (filled E p w) = cbuf w @ take (nat (room w)) p"
      "cidx (filled E p w) = cidx w" "handed (filled E p w) = handed w"
      "csize (filled E p w) = threshold w" "done_fired (filled E p w) = done_fired (yield E w)"
      using Write.prems(3) by (simp_all add: filled_def)
    have len: "length (cbuf w @ take (nat (room w)) p) = ?n"
      using room n by (simp add: room_def)
    have big: "0 < ?n" "?n \<le> length (cbuf w @ p)"
      using room n by (simp_all add: room_def)
    have tk: "take ?n (cbuf w @ p) = cbuf w @ take (nat (room w)) p"
      using n by (simp add: room_def nat_diff_distrib)
    have dr: "drop ?n (cbuf w @ p) = drop (nat (room w)) p"
      using n by (simp add: room_def nat_diff_distrib)
    note unf = Write.prems(1) [unfolded Write_unfold [of E p w]]
    from unf noerr False room obtain w4 k e w5 where
      sent: "sendChunk E (filled E p w) = Ret None w4" and
      rec: "Write E (drop (nat (room w)) p) w4 = Ret (k, e) w5" and
      res: "r = (room w + k, e)" "w' = setErr e w5"
      using Write.prems(2)
      by (auto simp: setErr_err_set split: outcome.splits option.splits prod.splits)
    from res Write.prems(2) have e: "e = None" "err w5 = None" "w' = w5"
      by (cases e; simp add: setErr_err_set)+
    note eff = sendChunk_sent_effect [OF sent, unfolded fill]
    have th4: "threshold w4 = threshold w" using eff n by (simp add: threshold_def)
    have ih: "(k, e) = (int (length (drop (nat (room w)) p)), None) \<and>
         handed w5 = handed w4 @
           spec_parts E (cidx w4) (spec_chunks ?n (cbuf w4 @ drop (nat (room w)) p)) \<and>
         cbuf w5 = spec_rest ?n (cbuf w4 @ drop (nat (room w)) p) \<and> chsh w5 = cbuf w5 \<and>
         cidx w5 = cidx w4 + int (length (spec_chunks ?n (cbuf w4 @ drop (nat (room w)) p))) \<and>
         threshold w5 = threshold w4 \<and> done_fired w5 = done_fired (yield E w4)"
      using Write.IH [OF noerr room sent rec e(2)] eff n th4 by simp
    show ?thesis
      using ih eff e res room th4 spec_long [OF big] tk dr
      by (simp add: spec_parts_append)
  qed
qed

subsection \<open>The simple upload touches only the call history and the file handle\<close>

lemma simple_redo_effect:
  "simple_redo E ue r sz ct sh w = Some y \<Longrightarrow>
     (\<exists>cs. snd y = w\<lparr>calls := calls w @ cs, o_f := o_f (snd y)\<rparr> \<and>
           (\<forall>c\<in>set cs. \<not> is_multipart c))"
proof (induction rule: simple_redo.raw_induct [rotated 1, consumes 1])
  case (1 redo E ue r sz ct sh w y)
  obtain k res where up: "uploadFile E (calls w) ue r sz (name w) ct sh (Info w) = (k, res)"
    by (cases "uploadFile E (calls w) ue r sz (name w) ct sh (Info w)")
  let ?c1 = "UploadFile ue r sz (name w) ct sh (Info w) k res"
  let ?w1 = "w\<lparr>calls := calls w @ [?c1]\<rparr>"
  show ?case
  proof (cases res)
    case (Inr f)
    with 1(2) up have "y = (None, ?w1\<lparr>o_f := Some f\<rparr>)" by (simp add: Let_def)
    then have "snd y = w\<lparr>calls := calls w @ [?c1], o_f := o_f (snd y)\<rparr>" by simp
    then show ?thesis by (intro exI [of _ "[?c1]"]) simp
  next
    case (Inl e)
    show ?thesis
    proof (cases "reupload E (Some e)")
      case False
      with 1(2) up Inl have "y = (Some e, ?w1)" by (simp add: Let_def)
      then have "snd y = w\<lparr>calls := calls w @ [?c1], o_f := o_f (snd y)\<rparr>" by simp
      then show ?thesis by (intro exI [of _ "[?c1]"]) simp
    next
      case True
      let ?u = "getUploadURL E (calls ?w1)"
      let ?w2 = "?w1\<lparr>calls := calls ?w1 @ [GetUploadURL ?u]\<rparr>"
      show ?thesis
      proof (cases ?u)
        case (Inl e2)
        with 1(2) up \<open>res = Inl e\<close> True have "y = (Some e2, ?w2)" by (simp add: Let_def)
        then have "snd y = w\<lparr>calls := calls w @ [?c1, GetUploadURL ?u], o_f := o_f (snd y)\<rparr>"
          by simp
        then show ?thesis by (intro exI [of _ "[?c1, GetUploadURL ?u]"]) simp
      next
        case (Inr ue2)
        with 1(2) up \<open>res = Inl e\<close> True have "redo E ue2 (drop k r) sz ct sh ?w2 = Some y"
          by (simp add: Let_def)
        from 1(1) [OF this] obtain cs where
          cs: "snd y = ?w2\<lparr>calls := calls ?w2 @ cs, o_f := o_f (snd y)\<rparr>"
            "\<forall>c\<in>set cs. \<not> is_multipart c"
          by blast
        from cs(1) have "snd y = w\<lparr>calls := calls w @ ([?c1, GetUploadURL ?u] @ cs),
            o_f := o_f (snd y)\<rparr>" by simp
        with cs(2) show ?thesis by (intro exI [of _ "[?c1, GetUploadURL ?u] @ cs"]) simp
      qed
    qed
  qed
qed

lemma simpleWriteFile_effect:
  assumes "simpleWriteFile E w = Some y"
  shows "\<exists>cs. snd y = w\<lparr>calls := calls w @ cs, o_f := o_f (snd y)\<rparr> \<and>
           (\<forall>c\<in>set cs. \<not> is_multipart c)"
proof (cases "getUploadURL E (calls w)")
  case (Inl e)
  let ?c = "GetUploadURL (getUploadURL E (calls w))"
  from assms Inl have "snd y = w\<lparr>calls := calls w @ [?c], o_f := o_f (snd y)\<rparr>"
    by (auto simp: simpleWriteFile_def Let_def)
  then show ?thesis by (intro exI [of _ "[?c]"]) simp
next
  case (Inr ue)
  let ?c = "GetUploadURL (getUploadURL E (calls w))"
  let ?w1 = "w\<lparr>calls := calls w @ [?c]\<rparr>"
  from assms Inr have
    "simple_redo E ue (cbuf w) (int (length (cbuf w))) (ctype_of ?w1) (sha1_hex E (chsh w)) ?w1
       = Some y"
    by (simp add: simpleWriteFile_def Let_def)
  from simple_redo_effect [OF this] obtain cs where
    cs: "snd y = ?w1\<lparr>calls := calls ?w1 @ cs, o_f := o_f (snd y)\<rparr>"
      "\<forall>c\<in>set cs. \<not> is_multipart c"
    by blast
  from cs(1) have "snd y = w\<lparr>calls := calls w @ (?c # cs), o_f := o_f (snd y)\<rparr>" by simp
  with cs(2) show ?thesis by (intro exI [of _ "?c # cs"]) simp
qed


subsection \<open>What every Write, Close and run preserves\<close>

lemma Write_induct_env [case_names Write]:
  assumes "\<And>p w.
     (\<And>w4. err (yield E w) = None \<Longrightarrow> 0 \<le> room w \<Longrightarrow> room w \<le> int (length p) \<Longrightarrow>
            sendChunk E (filled E p w) = Ret None w4 \<Longrightarrow> P (drop (nat (room w)) p) w4)
     \<Longrightarrow> P p w"
  shows "P p w"
proof -
  have "E' = E \<longrightarrow> P p w" for E'
  proof (induction E' p w rule: Write_induct)
    case (Write E' p w)
    show ?case
    proof
      assume eq: "E' = E"
      show "P p w"
      proof (rule assms)
        fix w4
        assume "err (yield E w) = None" "0 \<le> room w" "room w \<le> int (length p)"
          "sendChunk E (filled E p w) = Ret None w4"
        with Write [of w4] eq show "P (drop (nat (room w)) p) w4" by simp
      qed
    qed
  qed
  then show ?thesis by simp
qed

lemma Write_preserves:
  assumes Q: "Q w"
    and yld: "\<And>w. Q w \<Longrightarrow> Q (yield E w)"
    and dflt: "\<And>w. Q w \<Longrightarrow> Q (w\<lparr>csize := threshold w\<rparr>)"
    and buf: "\<And>w q. Q w \<Longrightarrow> csize w = threshold w \<Longrightarrow>
                int (length (cbuf w)) + int (length q) \<le> threshold w \<Longrightarrow>
                Q (w\<lparr>chsh := chsh w @ q, cbuf := cbuf w @ q\<rparr>)"
    and send: "\<And>w. Q w \<Longrightarrow> csize w = threshold w \<Longrightarrow>
                int (length (cbuf w)) = threshold w \<Longrightarrow> Q (state_of (sendChunk E w))"
    and serr: "\<And>w e. Q w \<Longrightarrow> Q (setErr e w)"
  shows "Q (state_of (Write E p w))"
  using Q
proof (induction p w rule: Write_induct_env [where E = E])
  case (Write p w)
  let ?y = "yield E w"
  let ?d = "?y\<lparr>csize := threshold w\<rparr>"
  have y: "Q ?y" using Write.prems by (rule yld)
  have d: "Q ?d" using dflt [OF y] by simp
  have dth: "csize ?d = threshold ?d" by (simp add: threshold_def)
  show ?case
  proof (cases "err ?y")
    case (Some e)
    then show ?thesis using y by (simp add: Write_unfold [of E p w])
  next
    case None
    show ?thesis
    proof (cases "int (length p) < room w")
      case True
      have "Q (?d\<lparr>chsh := chsh ?d @ p, cbuf := cbuf ?d @ p\<rparr>)"
        using True by (intro buf [OF d dth]) (simp add: room_def threshold_def)
      then show ?thesis using None True by (simp add: Write_unfold [of E p w])
    next
      case False
      show ?thesis
      proof (cases "room w < 0")
        case True
        then show ?thesis using None False d by (simp add: Write_unfold [of E p w])
      next
        case nonneg: False
        let ?q = "take (nat (room w)) p"
        have f: "filled E p w = ?d\<lparr>chsh := chsh ?d @ ?q, cbuf := cbuf ?d @ ?q\<rparr>"
          by (simp add: filled_def)
        have qf: "Q (filled E p w)"
          unfolding f using False nonneg
          by (intro buf [OF d dth]) (simp add: room_def threshold_def)
        have full: "csize (filled E p w) = threshold (filled E p w)"
          "int (length (cbuf (filled E p w))) = threshold (filled E p w)"
          using False nonneg by (simp_all add: filled_def room_def threshold_def)
        have s: "Q (state_of (sendChunk E (filled E p w)))"
          by (rule send [OF qf full])
        show ?thesis
        proof (cases "sendChunk E (filled E p w)")
          case (Stuck r w4)
          with s None False nonneg show ?thesis by (simp add: Write_unfold [of E p w])
        next
          case (Ret x w4)
          show ?thesis
          proof (cases x)
            case (Some e)
            with s Ret None False nonneg serr [of w4 "Some e"] show ?thesis
              by (simp add: Write_unfold [of E p w])
          next
            case xNone: None
            have ih: "Q (state_of (Write E (drop (nat (room w)) p) w4))"
              using Write.IH [OF None _ _ _] nonneg False Ret xNone s by simp
            show ?thesis
            proof (cases "Write E (drop (nat (room w)) p) w4")
              case (Stuck r w5)
              with ih Ret xNone None False nonneg show ?thesis
                by (simp add: Write_unfold [of E p w])
            next
              case inner: (Ret y w5)
              obtain k e where y: "y = (k, e)" by (cases y)
              with ih inner Ret xNone None False nonneg serr [of w5 e] show ?thesis
                by (simp add: Write_unfold [of E p w])
            qed
          qed
        qed
      qed
    qed
  qed
qed

lemma close_finish_preserves:
  assumes Q: "Q w"
    and yld: "\<And>w. Q w \<Longrightarrow> Q (yield E w)"
    and serr: "\<And>w e. Q w \<Longrightarrow> Q (setErr e w)"
    and closed: "\<And>w. Q w \<Longrightarrow> ready w = Open \<Longrightarrow> Q (w\<lparr>ready := Closed\<rparr>)"
    and finish: "\<And>w f. Q w \<Longrightarrow> ready w = Closed \<Longrightarrow>
                   Q (w\<lparr>calls := calls w @ [FinishLargeFile f]\<rparr>)"
    and handle: "\<And>w x. Q w \<Longrightarrow> Q (w\<lparr>o_f := x\<rparr>)"
  shows "Q (state_of (close_finish E w))"
proof (cases "ready w = Open")
  case False
  with Q show ?thesis by (simp add: close_finish_def)
next
  case True
  let ?w2 = "yield E (w\<lparr>ready := Closed\<rparr>)"
  have q2: "Q ?w2" using Q True by (intro yld closed)
  let ?w3 = "yield E ?w2"
  have q3: "Q ?w3" by (rule yld [OF q2])
  have "Q (?w3\<lparr>calls := calls ?w3 @ [FinishLargeFile f]\<rparr>)" for f
    by (rule finish [OF q3]) simp
  then show ?thesis
    using q2 True
    using serr handle by (auto simp: close_finish_def Let_def split: sum.splits)
qed

lemma Close_preserves:
  assumes Q: "Q w"
    and yld: "\<And>w. Q w \<Longrightarrow> Q (yield E w)"
    and serr: "\<And>w e. Q w \<Longrightarrow> Q (setErr e w)"
    and fin: "\<And>w. Q w \<Longrightarrow> Q (w\<lparr>done_fired := True\<rparr>)"
    and simple: "\<And>w cs x. Q w \<Longrightarrow> cidx w = 0 \<Longrightarrow> \<forall>c\<in>set cs. \<not> is_multipart c \<Longrightarrow>
                   Q (w\<lparr>calls := calls w @ cs, o_f := x\<rparr>)"
    and send: "\<And>w. Q w \<Longrightarrow> cidx w \<noteq> 0 \<Longrightarrow> cbuf w \<noteq> [] \<Longrightarrow> Q (state_of (sendChunk E w))"
    and closed: "\<And>w. Q w \<Longrightarrow> ready w = Open \<Longrightarrow> Q (w\<lparr>ready := Closed\<rparr>)"
    and finish: "\<And>w f. Q w \<Longrightarrow> ready w = Closed \<Longrightarrow>
                   Q (w\<lparr>calls := calls w @ [FinishLargeFile f]\<rparr>)"
    and handle: "\<And>w x. Q w \<Longrightarrow> Q (w\<lparr>o_f := x\<rparr>)"
  shows "Q (state_of (Close E w))"
proof (cases "done_fired w")
  case True
  then show ?thesis using yld [OF Q] by (simp add: Close_def Let_def)
next
  case False
  let ?w = "w\<lparr>done_fired := True\<rparr>"
  have q0: "Q ?w" by (rule fin [OF Q])
  note tail = close_finish_preserves [where Q = Q and E = E, OF _ yld serr closed finish handle]
  have body: "Q (state_of (close_body E ?w))"
  proof (cases "cidx w = 0")
    case True
    let ?y = "yield E ?w"
    have qy: "Q ?y" by (rule yld [OF q0])
    show ?thesis
    proof (cases "simpleWriteFile E ?y")
      case None
      with True qy show ?thesis by (simp add: close_body_def)
    next
      case (Some y)
      obtain e w1 where y: "y = (e, w1)" by (cases y)
      from simpleWriteFile_effect [OF Some] obtain cs where
        cs: "snd y = ?y\<lparr>calls := calls ?y @ cs, o_f := o_f (snd y)\<rparr>"
          "\<forall>c\<in>set cs. \<not> is_multipart c"
        by blast
      have "Q (?y\<lparr>calls := calls ?y @ cs, o_f := o_f (snd y)\<rparr>)"
        using True cs(2) by (intro simple [OF qy]) simp_all
      then have "Q (snd y)" by (subst cs(1))
      then have "Q w1" by (simp add: y)
      with True Some y serr [of w1 e] show ?thesis by (simp add: close_body_def)
    qed
  next
    case nz: False
    show ?thesis
    proof (cases "cbuf w = []")
      case True
      have eq: "close_body E ?w = close_finish E ?w"
        using nz True by (simp add: close_body_def)
      show ?thesis unfolding eq by (rule tail [OF q0])
    next
      case False
      have qs: "Q (state_of (sendChunk E ?w))" using nz False by (intro send [OF q0]) simp_all
      show ?thesis
      proof (cases "sendChunk E ?w")
        case (Stuck r w1)
        then have "close_body E ?w = Stuck r w1" using nz False by (simp add: close_body_def)
        with qs Stuck show ?thesis by simp
      next
        case (Ret x w1)
        with qs have q1: "Q w1" by simp
        show ?thesis
        proof (cases x)
          case None
          with Ret have eq: "close_body E ?w = close_finish E w1"
            using nz False by (simp add: close_body_def)
          show ?thesis unfolding eq by (rule tail [OF q1])
        next
          case (Some e)
          with Ret have "close_body E ?w = Ret () (setErr (Some e) w1)"
            using nz False by (simp add: close_body_def)
          with serr [OF q1] show ?thesis by simp
        qed
      qed
    qed
  qed
  show ?thesis
  proof (cases "close_body E ?w")
    case (Stuck r w1)
    with body False show ?thesis by (simp add: Close_def)
  next
    case (Ret u w1)
    with body False yld [of w1] show ?thesis by (simp add: Close_def Let_def)
  qed
qed

lemma run_ops_preserves:
  assumes Q: "Q w"
    and yld: "\<And>w. Q w \<Longrightarrow> Q (yield E w)"
    and serr: "\<And>w e. Q w \<Longrightarrow> Q (setErr e w)"
    and dflt: "\<And>w. Q w \<Longrightarrow> Q (w\<lparr>csize := threshold w\<rparr>)"
    and buf: "\<And>w q. Q w \<Longrightarrow> Q (w\<lparr>chsh := chsh w @ q, cbuf := cbuf w @ q\<rparr>)"
    and send: "\<And>w. Q w \<Longrightarrow> Q (state_of (sendChunk E w))"
    and fin: "\<And>w. Q w \<Longrightarrow> Q (w\<lparr>done_fired := True\<rparr>)"
    and simple: "\<And>w cs x. Q w \<Longrightarrow> cidx w = 0 \<Longrightarrow> \<forall>c\<in>set cs. \<not> is_multipart c \<Longrightarrow>
                   Q (w\<lparr>calls := calls w @ cs, o_f := x\<rparr>)"
    and closed: "\<And>w. Q w \<Longrightarrow> ready w = Open \<Longrightarrow> Q (w\<lparr>ready := Closed\<rparr>)"
    and finish: "\<And>w f. Q w \<Longrightarrow> ready w = Closed \<Longrightarrow>
                   Q (w\<lparr>calls := calls w @ [FinishLargeFile f]\<rparr>)"
    and handle: "\<And>w x. Q w \<Longrightarrow> Q (w\<lparr>o_f := x\<rparr>)"
  shows "Q (state_of (run_ops E ops w))"
  using Q
proof (induction ops arbitrary: w)
  case Nil
  then show ?case by simp
next
  case (Cons a ops)
  show ?case
  proof (cases a)
    case (DoWrite p)
    have q1: "Q (state_of (Write E p w))"
      by (rule Write_preserves [where Q = Q, OF Cons.prems yld dflt buf send serr])
        assumption+
    show ?thesis
    proof (cases "Write E p w")
      case (Stuck r w1)
      with q1 DoWrite show ?thesis by simp
    next
      case (Ret x w1)
      obtain n e where x: "x = (n, e)" by (cases x)
      from q1 Ret have "Q w1" by simp
      from Cons.IH [OF this] Ret x DoWrite show ?thesis
        by (cases "run_ops E ops w1") simp_all
    qed
  next
    case DoClose
    have q1: "Q (state_of (Close E w))"
      by (rule Close_preserves [where Q = Q, OF Cons.prems yld serr fin simple send closed
            finish handle])
    show ?thesis
    proof (cases "Close E w")
      case (Stuck r w1)
      with q1 DoClose show ?thesis by simp
    next
      case (Ret e w1)
      from q1 Ret have "Q w1" by simp
      from Cons.IH [OF this] Ret DoClose show ?thesis
        by (cases "run_ops E ops w1") simp_all
    qed
  qed
qed

subsection \<open>Chunk ids and the start of the large file\<close>

lemma starts_append [simp]: "starts (xs @ ys) = starts xs + starts ys"
  by (simp add: starts_def)

lemma starts_Nil [simp]: "starts [] = 0"
  by (simp add: starts_def)

lemma starts_Cons [simp]: "starts (c # cs) = (if is_start c then 1 else 0) + starts cs"
  by (simp add: starts_def)

lemma starts_simple: "\<forall>c\<in>set cs. \<not> is_multipart c \<Longrightarrow> starts cs = 0"
proof (induction cs)
  case Nil
  then show ?case by simp
next
  case (Cons c cs)
  then show ?case by (cases c) simp_all
qed

lemma wstep_starts [simp]: "starts (calls (wstep E i w)) = starts (calls w)"
  by (simp add: wstep_def set_worker_def Let_def
        split: wstate.splits sum.splits option.splits prod.splits)

lemma wsteps_starts [simp]: "starts (calls (wsteps E js w)) = starts (calls w)"
  by (induction js arbitrary: w) simp_all

lemma yield_starts [simp]: "starts (calls (yield E w)) = starts (calls w)"
  by (simp add: yield_def split: list.splits)

lemma sendChunk_starts:
  "starts (calls (state_of (sendChunk E w))) = starts (calls w) + (if once_fired w then 0 else 1) \<and>
   once_fired (state_of (sendChunk E w))"
  by (auto simp: sendChunk_def once_body_def Let_def thread_def
        split: option.splits prod.splits chan.splits if_splits)

lemma sendChunk_cases:
  obtains (sent) w' where "sendChunk E w = Ret None w'"
  | (unsent) "sendChunk E w \<noteq> Ret None (state_of (sendChunk E w))"
  by (cases "sendChunk E w") auto

lemma sendChunk_ids: "ids_ok w \<Longrightarrow> ids_ok (state_of (sendChunk E w))"
proof (cases rule: sendChunk_cases [of E w])
  case (sent w')
  assume "ids_ok w"
  with sendChunk_sent_effect [OF sent] sent show ?thesis
    by (auto simp: ids_ok_def nth_append less_Suc_eq)
next
  case unsent
  assume "ids_ok w"
  with sendChunk_unsent_effect [OF refl unsent] show ?thesis
    by (simp add: ids_ok_def)
qed

lemma sendChunk_start_ok: "start_ok w \<Longrightarrow> start_ok (state_of (sendChunk E w))"
  using sendChunk_starts [of E w] by (auto simp: start_ok_def)

lemma run_ops_ids: "ids_ok w \<Longrightarrow> ids_ok (state_of (run_ops E ops w))"
  by (rule run_ops_preserves [where Q = ids_ok])
     (simp_all add: ids_ok_def [of "setErr _ _"] sendChunk_ids, simp_all add: ids_ok_def)

lemma run_ops_start_ok: "start_ok w \<Longrightarrow> start_ok (state_of (run_ops E ops w))"
  by (rule run_ops_preserves [where Q = start_ok])
     (simp_all add: sendChunk_start_ok, simp_all add: start_ok_def starts_simple)

lemma run_ops_err_sticky: "err w = Some e \<Longrightarrow> err (state_of (run_ops E ops w)) = Some e"
  by (rule run_ops_preserves [where Q = "\<lambda>w. err w = Some e"])
     (simp_all add: yield_err_sticky sendChunk_err_sticky setErr_err_sticky)

lemma Close_err_sticky: "err w = Some e \<Longrightarrow> err (state_of (Close E w)) = Some e"
  by (rule Close_preserves [where Q = "\<lambda>w. err w = Some e"])
     (simp_all add: yield_err_sticky sendChunk_err_sticky setErr_err_sticky)

lemma fresh_ok: "fresh w \<Longrightarrow> ids_ok w \<and> start_ok w"
  by (simp add: fresh_def ids_ok_def start_ok_def)

subsection \<open>Runs that leave no error recorded\<close>

lemma run_ops_append:
  "run_ops E (xs @ ys) w =
     (case run_ops E xs w of
        Stuck r w1 \<Rightarrow> Stuck r w1
      | Ret rs w1 \<Rightarrow>
          (case run_ops E ys w1 of
             Stuck r w2 \<Rightarrow> Stuck r w2
           | Ret rs2 w2 \<Rightarrow> Ret (rs @ rs2) w2))"
proof (induction xs arbitrary: w)
  case Nil
  show ?case by (cases "run_ops E ys w") simp_all
next
  case (Cons a xs)
  show ?case
  proof (cases a)
    case (DoWrite p)
    show ?thesis
    proof (cases "Write E p w")
      case (Stuck r w1)
      with DoWrite show ?thesis by simp
    next
      case (Ret x w1)
      obtain n e where "x = (n, e)" by (cases x)
      with Ret DoWrite Cons [of w1] show ?thesis
        by (simp split: outcome.splits)
    qed
  next
    case DoClose
    show ?thesis
    proof (cases "Close E w")
      case (Stuck r w1)
      with DoClose show ?thesis by simp
    next
      case (Ret e w1)
      with DoClose Cons [of w1] show ?thesis
        by (simp split: outcome.splits)
    qed
  qed
qed

text \<open>A run of writes that leaves no error recorded.\<close>

lemma writes_char:
  assumes "run_ops E (map DoWrite ps) w = Ret rs w'" "err w' = None" "chsh w = cbuf w"
    "int (length (cbuf w)) < threshold w"
  shows "rs = map (\<lambda>p. WriteRet (int (length p)) None) ps \<and>
         handed w' = handed w @
           spec_parts E (cidx w) (spec_chunks (nat (threshold w)) (cbuf w @ concat ps)) \<and>
         cbuf w' = spec_rest (nat (threshold w)) (cbuf w @ concat ps) \<and> chsh w' = cbuf w' \<and>
         cidx w' = cidx w + int (length (spec_chunks (nat (threshold w)) (cbuf w @ concat ps))) \<and>
         threshold w' = threshold w \<and> done_fired w' = done_fired w"
  using assms
proof (induction ps arbitrary: w rs)
  case Nil
  then show ?case by (auto simp: spec_short)
next
  case (Cons p ps)
  let ?n = "nat (threshold w)"
  from Cons.prems(1) obtain k e w1 rs1 where
    wr: "Write E p w = Ret (k, e) w1" and
    rest: "run_ops E (map DoWrite ps) w1 = Ret rs1 w'" and
    rs: "rs = WriteRet k e # rs1"
    by (auto split: outcome.splits prod.splits)
  have e1: "err w1 = None"
  proof (cases "err w1")
    case (Some x)
    from run_ops_err_sticky [OF Some, of E "map DoWrite ps"] rest Cons.prems(2)
    show ?thesis by simp
  qed simp
  note c1 = Write_char [OF wr e1 Cons.prems(3,4)]
  have n: "0 < ?n" using Cons.prems(4) by simp
  have small: "int (length (cbuf w1)) < threshold w1"
    using c1 spec_rest_length [OF n, of "cbuf w @ p"] by simp
  from c1 have sync: "chsh w1 = cbuf w1" by simp
  note c2 = Cons.IH [OF rest Cons.prems(2) sync small]
  have th: "threshold w1 = threshold w" using c1 by simp
  have ap: "spec_chunks ?n (cbuf w @ p @ concat ps) =
      spec_chunks ?n (cbuf w @ p) @ spec_chunks ?n (spec_rest ?n (cbuf w @ p) @ concat ps)"
    "spec_rest ?n (cbuf w @ p @ concat ps) = spec_rest ?n (spec_rest ?n (cbuf w @ p) @ concat ps)"
    using spec_append [of ?n "cbuf w @ p" "concat ps"] by simp_all
  show ?case
    using c1 c2 rs th ap by (simp add: spec_parts_append)
qed

lemma close_finish_private [simp]:
  "handed (state_of (close_finish E w)) = handed w"
  "cbuf (state_of (close_finish E w)) = cbuf w"
  "chsh (state_of (close_finish E w)) = chsh w"
  "cidx (state_of (close_finish E w)) = cidx w"
  "csize (state_of (close_finish E w)) = csize w"
  "done_fired (state_of (close_finish E w)) = done_fired w"
  by (simp_all add: close_finish_def Let_def split: sum.splits)

lemma simpleWriteFile_private:
  assumes "simpleWriteFile E w = Some (e, w1)"
  shows "handed w1 = handed w \<and> cbuf w1 = cbuf w \<and> chsh w1 = chsh w \<and> cidx w1 = cidx w \<and>
         csize w1 = csize w \<and> done_fired w1 = done_fired w \<and> err w1 = err w \<and>
         once_fired w1 = once_fired w \<and> ready w1 = ready w \<and> workers w1 = workers w"
proof -
  from simpleWriteFile_effect [OF assms] obtain cs where
    "w1 = w\<lparr>calls := calls w @ cs, o_f := o_f w1\<rparr>" by auto
  then have "\<exists>x y. w1 = w\<lparr>calls := x, o_f := y\<rparr>" by blast
  then show ?thesis by auto
qed

lemma Close_char:
  assumes "Close E w = Ret e w'" "err w' = None" "\<not> done_fired w" "chsh w = cbuf w"
  shows "e = None \<and> done_fired w' \<and> threshold w' = threshold w \<and>
         (cidx w = 0 \<longrightarrow> handed w' = handed w \<and> cbuf w' = cbuf w \<and> cidx w' = 0) \<and>
         (cidx w \<noteq> 0 \<longrightarrow>
            handed w' = handed w @ spec_parts E (cidx w) (if cbuf w = [] then [] else [cbuf w]) \<and>
            cbuf w' = [])"
proof -
  let ?w = "w\<lparr>done_fired := True\<rparr>"
  from assms(1,3) obtain u w1 where
    body: "close_body E ?w = Ret u w1" and w': "w' = yield E w1" and e: "e = getErr w'"
    by (auto simp: Close_def Let_def split: outcome.splits)
  have e1: "err w1 = None"
  proof (cases "err w1")
    case (Some x)
    from yield_err_sticky [OF Some, of E] w' assms(2) show ?thesis by simp
  qed simp
  have priv: "handed w' = handed w1" "cbuf w' = cbuf w1" "cidx w' = cidx w1"
    "done_fired w' = done_fired w1" "threshold w' = threshold w1"
    using w' by simp_all
  show ?thesis
  proof (cases "cidx w = 0")
    case True
    with body obtain x w0 where s: "simpleWriteFile E (yield E ?w) = Some (x, w0)"
      and w1: "w1 = setErr x w0"
      by (auto simp: close_body_def Let_def split: option.splits)
    from simpleWriteFile_private [OF s] w1 True priv e assms(2) show ?thesis
      by (simp add: getErr_def threshold_def)
  next
    case nz: False
    show ?thesis
    proof (cases "cbuf w = []")
      case True
      with nz body have "close_finish E ?w = Ret u w1" by (simp add: close_body_def)
      then have "state_of (close_finish E ?w) = w1" by simp
      from close_finish_private [of E ?w, unfolded this] nz True priv e assms(2) show ?thesis
        by (simp add: getErr_def threshold_def)
    next
      case False
      show ?thesis
      proof (cases "sendChunk E ?w")
        case (Stuck r w2)
        with nz False body show ?thesis by (simp add: close_body_def)
      next
        case (Ret x w2)
        show ?thesis
        proof (cases x)
          case (Some y)
          with Ret nz False body have "w1 = setErr (Some y) w2" by (simp add: close_body_def)
          with e1 setErr_err_set [of y w2] show ?thesis by simp
        next
          case None
          with Ret nz False body have "close_finish E w2 = Ret u w1" by (simp add: close_body_def)
          then have "state_of (close_finish E w2) = w1" by simp
          note fr = close_finish_private [of E w2, unfolded this]
          from None Ret have "sendChunk E ?w = Ret None w2" by simp
          note eff = sendChunk_sent_effect [OF this]
          show ?thesis
            using fr eff nz False priv e assms(2,4) by (simp add: getErr_def threshold_def)
        qed
      qed
    qed
  qed
qed


lemma sendChunk_done_fired [simp]:
  "done_fired (state_of (sendChunk E w)) = done_fired w"
proof (cases rule: sendChunk_cases [of E w])
  case (sent w')
  with sendChunk_sent_effect [OF sent] show ?thesis by simp
next
  case unsent
  with sendChunk_unsent_effect [OF refl unsent] show ?thesis by simp
qed

lemma close_body_done_fired: "done_fired (state_of (close_body E w)) = done_fired w"
proof (cases "cidx w = 0")
  case True
  show ?thesis
  proof (cases "simpleWriteFile E (yield E w)")
    case None
    with True show ?thesis by (simp add: close_body_def)
  next
    case (Some y)
    obtain e w1 where y: "y = (e, w1)" by (cases y)
    with simpleWriteFile_private [of E "yield E w" e w1] Some True show ?thesis
      by (simp add: close_body_def)
  qed
next
  case nz: False
  show ?thesis
  proof (cases "cbuf w = []")
    case True
    with nz show ?thesis by (simp add: close_body_def)
  next
    case False
    show ?thesis
    proof (cases "sendChunk E w")
      case (Stuck r w1)
      with sendChunk_done_fired [of E w] nz False show ?thesis by (simp add: close_body_def)
    next
      case (Ret x w1)
      with sendChunk_done_fired [of E w] nz False show ?thesis
        by (cases x) (simp_all add: close_body_def)
    qed
  qed
qed

lemma Close_ret_err: "Close E w = Ret e w' \<Longrightarrow> e = err w' \<and> done_fired w'"
  using close_body_done_fired [of E "w\<lparr>done_fired := True\<rparr>"]
  by (auto simp: Close_def Let_def getErr_def split: if_splits outcome.splits)

lemma threshold_pos: "0 \<le> csize w \<Longrightarrow> 0 < threshold w"
  by (simp add: threshold_def)

lemma session_split:
  assumes "run_ops E (map DoWrite ps @ [DoClose]) w = Ret rs w'"
  obtains rs1 w1 where "run_ops E (map DoWrite ps) w = Ret rs1 w1"
    "Close E w1 = Ret (err w') w'" "rs = rs1 @ [CloseRet (err w')]"
proof -
  from assms obtain rs1 w1 e where
    a: "run_ops E (map DoWrite ps) w = Ret rs1 w1" and b: "Close E w1 = Ret e w'"
    and c: "rs = rs1 @ [CloseRet e]"
    by (auto simp: run_ops_append split: outcome.splits)
  from Close_ret_err [OF b] b c a that show ?thesis by simp
qed

text \<open>A whole session that leaves no error recorded.\<close>

lemma session_char:
  assumes "fresh w" "run_ops E (map DoWrite ps @ [DoClose]) w = Ret rs w'" "err w' = None"
  shows "rs = map (\<lambda>p. WriteRet (int (length p)) None) ps @ [CloseRet None] \<and>
         handed w' = spec_parts E 0
           (spec_chunks (nat (threshold w)) (concat ps) @
            (if spec_chunks (nat (threshold w)) (concat ps) = [] \<or>
                spec_rest (nat (threshold w)) (concat ps) = []
             then [] else [spec_rest (nat (threshold w)) (concat ps)])) \<and>
         cbuf w' = (if spec_chunks (nat (threshold w)) (concat ps) = [] then concat ps else [])"
proof -
  let ?n = "nat (threshold w)"
  from session_split [OF assms(2)] obtain rs1 w1 where
    a: "run_ops E (map DoWrite ps) w = Ret rs1 w1" and b: "Close E w1 = Ret (err w') w'"
    and c: "rs = rs1 @ [CloseRet (err w')]" by blast
  have e1: "err w1 = None"
  proof (cases "err w1")
    case (Some x)
    from Close_err_sticky [OF Some, of E] b assms(3) show ?thesis by simp
  qed simp
  have pre: "chsh w = cbuf w" "int (length (cbuf w)) < threshold w" "cbuf w = []"
    "handed w = []" "cidx w = 0" "\<not> done_fired w"
    using assms(1) threshold_pos [of w] by (simp_all add: fresh_def)
  note wc = writes_char [OF a e1 pre(1,2), unfolded pre, simplified]
  from wc have nd: "\<not> done_fired w1" "chsh w1 = cbuf w1" using pre by simp_all
  note cc = Close_char [OF b assms(3) nd]
  have z: "cidx w1 = 0 \<longleftrightarrow> spec_chunks ?n (concat ps) = []" using wc by simp
  have short: "spec_chunks ?n (concat ps) = [] \<Longrightarrow> spec_rest ?n (concat ps) = concat ps"
    using spec_concat [of ?n "concat ps"] by simp
  show ?thesis
  proof (cases "spec_chunks ?n (concat ps) = []")
    case True
    with z cc wc c assms(3) short show ?thesis by simp
  next
    case False
    with z cc wc c assms(3) show ?thesis by (simp add: spec_parts_append)
  qed
qed


lemma spec_parts_cong: "sha1_hex E1 = sha1_hex E2 \<Longrightarrow> spec_parts E1 k bs = spec_parts E2 k bs"
  by (induction bs arbitrary: k) simp_all

lemma spec_parts_length [simp]: "length (spec_parts E k bs) = length bs"
  by (induction bs arbitrary: k) simp_all

lemma spec_parts_nth:
  "i < length bs \<Longrightarrow>
     spec_parts E k bs ! i =
       \<lparr>chunk_id = k + int i + 1, chunk_size = int (length (bs ! i)),
        chunk_sha1 = sha1_hex E (bs ! i), chunk_buf = bs ! i\<rparr>"
proof (induction bs arbitrary: k i)
  case Nil
  then show ?case by simp
next
  case (Cons b bs)
  then show ?case by (cases i) (simp_all add: add.assoc add.commute)
qed

lemma run_ops_sync: "chsh w = cbuf w \<Longrightarrow> chsh (state_of (run_ops E ops w)) = cbuf (state_of (run_ops E ops w))"
proof (rule run_ops_preserves [where Q = "\<lambda>w. chsh w = cbuf w"], goal_cases)
  case (6 w)
  show ?case
  proof (cases rule: sendChunk_cases [of E w])
    case (sent w')
    with sendChunk_sent_effect [OF sent] show ?thesis by simp
  next
    case unsent
    with sendChunk_unsent_effect [OF refl unsent] 6 show ?thesis by simp
  qed
qed simp_all

lemma threshold_default [simp]: "threshold (w\<lparr>csize := threshold w\<rparr>) = threshold w"
  by (simp add: threshold_def)

lemma threshold_setErr [simp]: "threshold (setErr e w) = threshold w"
  by (simp add: threshold_def)

lemma threshold_buffer [simp]: "threshold (w\<lparr>chsh := x, cbuf := y\<rparr>) = threshold w"
  by (simp add: threshold_def)

lemma full_ok_yield: "full_ok w \<Longrightarrow> full_ok (yield E w)"
  by (simp add: full_ok_def)

lemma full_ok_default: "full_ok w \<Longrightarrow> full_ok (w\<lparr>csize := threshold w\<rparr>)"
  by (simp add: full_ok_def)

lemma full_ok_buffer: "full_ok w \<Longrightarrow> full_ok (w\<lparr>chsh := x, cbuf := y\<rparr>)"
  by (simp add: full_ok_def)

lemma full_ok_setErr: "full_ok w \<Longrightarrow> full_ok (setErr e w)"
  by (simp add: full_ok_def)

lemma full_ok_sendChunk:
  assumes "full_ok w" "csize w = threshold w" "int (length (cbuf w)) = threshold w"
  shows "full_ok (state_of (sendChunk E w))"
proof (cases rule: sendChunk_cases [of E w])
  case (sent w')
  note eff = sendChunk_sent_effect [OF sent]
  from eff have th: "threshold w' = threshold w" by (simp add: threshold_def)
  from eff have h: "set (handed w') = insert \<lparr>chunk_id = cidx w + 1, chunk_size = int (length (cbuf w)),
             chunk_sha1 = sha1_hex E (chsh w), chunk_buf = cbuf w\<rparr> (set (handed w))"
    by simp
  from eff have d: "done_fired w' = done_fired w" by simp
  show ?thesis
    using assms(1,3) by (simp add: sent full_ok_def th h d)
next
  case unsent
  note eff = sendChunk_unsent_effect [OF refl unsent]
  from eff have th: "threshold (state_of (sendChunk E w)) = threshold w"
    by (simp add: threshold_def)
  show ?thesis using assms(1) eff by (simp add: full_ok_def th)
qed

lemma Write_full: "full_ok w \<Longrightarrow> full_ok (state_of (Write E p w))"
  by (rule Write_preserves [where Q = full_ok])
     (assumption | rule full_ok_yield full_ok_default full_ok_buffer full_ok_setErr
        full_ok_sendChunk)+

lemma writes_full: "full_ok w \<Longrightarrow> full_ok (state_of (run_ops E (map DoWrite ps) w))"
proof (induction ps arbitrary: w)
  case Nil
  then show ?case by simp
next
  case (Cons p ps)
  have q: "full_ok (state_of (Write E p w))" by (rule Write_full [OF Cons.prems])
  show ?case
  proof (cases "Write E p w")
    case (Stuck r w1)
    with q show ?thesis by simp
  next
    case (Ret x w1)
    obtain n e where x: "x = (n, e)" by (cases x)
    from q Ret have "full_ok w1" by simp
    from Cons.IH [OF this] Ret x show ?thesis
      by (cases "run_ops E (map DoWrite ps) w1") simp_all
  qed
qed

lemma Close_handed:
  "handed (state_of (Close E w)) = handed w \<or>
   (\<not> done_fired w \<and> cidx w \<noteq> 0 \<and> cbuf w \<noteq> [] \<and>
    handed (state_of (Close E w)) = handed w @
      [\<lparr>chunk_id = cidx w + 1, chunk_size = int (length (cbuf w)),
        chunk_sha1 = sha1_hex E (chsh w), chunk_buf = cbuf w\<rparr>])"
proof (cases "done_fired w")
  case True
  then show ?thesis by (simp add: Close_def Let_def)
next
  case nd: False
  let ?w = "w\<lparr>done_fired := True\<rparr>"
  have out: "handed (state_of (Close E w)) = handed (state_of (close_body E ?w))"
    using nd by (cases "close_body E ?w") (simp_all add: Close_def Let_def)
  show ?thesis
  proof (cases "cidx w = 0")
    case True
    show ?thesis
    proof (cases "simpleWriteFile E (yield E ?w)")
      case None
      with True out show ?thesis by (simp add: close_body_def)
    next
      case (Some y)
      obtain e w1 where y: "y = (e, w1)" by (cases y)
      with simpleWriteFile_private [of E "yield E ?w" e w1] Some True out show ?thesis
        by (simp add: close_body_def)
    qed
  next
    case nz: False
    show ?thesis
    proof (cases "cbuf w = []")
      case True
      with nz out show ?thesis by (simp add: close_body_def)
    next
      case False
      show ?thesis
      proof (cases rule: sendChunk_cases [of E ?w])
        case (sent w')
        with sendChunk_sent_effect [OF sent] nz False out nd show ?thesis
          by (simp add: close_body_def)
      next
        case unsent
        note u = sendChunk_unsent_effect [OF refl unsent]
        show ?thesis
        proof (cases "sendChunk E ?w")
          case (Stuck r w1)
          with u nz False out show ?thesis by (simp add: close_body_def)
        next
          case (Ret x w1)
          with unsent obtain e where "x = Some e" by (cases x) auto
          with Ret u nz False out show ?thesis by (simp add: close_body_def)
        qed
      qed
    qed
  qed
qed


subsection \<open>Round trip\<close>

lemma session_success:
  assumes "run_ops E (map DoWrite ps @ [DoClose]) w = Ret rs w'"
  shows "last rs = CloseRet (err w')"
  using session_split [OF assms] by (metis last_snoc)

lemma session_roundtrip:
  assumes "fresh w" "run_ops E (map DoWrite ps @ [DoClose]) w = Ret rs w'" "err w' = None"
  shows "concat (map chunk_buf (handed w')) @ cbuf w' = concat ps \<and>
         (handed w' \<noteq> [] \<longrightarrow> cbuf w' = [])"
proof -
  let ?n = "nat (threshold w)"
  note sc = session_char [OF assms]
  show ?thesis
  proof (cases "spec_chunks ?n (concat ps) = []")
    case True
    with sc show ?thesis by simp
  next
    case False
    with sc spec_concat [of ?n "concat ps"] show ?thesis by auto
  qed
qed

lemma fresh_new_writer: "0 \<le> cs \<Longrightarrow> fresh (new_writer nm cs conc sch)"
  by (simp add: fresh_def new_writer_def)

lemma scenario_eval:
  "scenario = Ret [WriteRet 25 None, CloseRet None]
    \<lparr>ConcurrentUploads = 2, ContentType = [], Info = [], csize = 10,
     ctx_done = False, cancels = 0, ready = Closed, offer = None, wg = 0,
     once_fired = True, done_fired = True, file_set = True, o_f = Some 7,
     name = ''obj'', cbuf = [], cidx = 3, chsh = [], err = None,
     workers = [WExit, WExit],
     calls =
       [StartLargeFile ''obj'' ''application/octet-stream'' [] None,
        GetUploadPartURL (Inr 1), GetUploadPartURL (Inr 2),
        UploadPart 1 ''ABCDEFGHIJ'' ''ABCDEFGHIJ'' 10 1 10 10 None,
        UploadPart 2 ''KLMNOPQRST'' ''KLMNOPQRST'' 10 2 10 10 None,
        UploadPart 1 ''UVWXY'' ''UVWXY'' 5 3 5 5 None,
        FinishLargeFile (Inr 7)],
     handed =
       [\<lparr>chunk_id = 1, chunk_size = 10, chunk_sha1 = ''ABCDEFGHIJ'',
           chunk_buf = ''ABCDEFGHIJ''\<rparr>,
        \<lparr>chunk_id = 2, chunk_size = 10, chunk_sha1 = ''KLMNOPQRST'',
           chunk_buf = ''KLMNOPQRST''\<rparr>,
        \<lparr>chunk_id = 3, chunk_size = 5, chunk_sha1 = ''UVWXY'',
           chunk_buf = ''UVWXY''\<rparr>],
     sched = []\<rparr>"
  by code_simp

lemma scenario_assembled:
  "assembled (calls (state_of scenario)) = ''ABCDEFGHIJKLMNOPQRSTUVWXY''"
  by (simp add: scenario_eval assembled_def List.map_filter_def)

text \<open>
  Claim C1. From a fresh writer, for every sequence of writes followed by one \<^verbatim>\<open>Close\<close>
  that returns nil, under any schedule and whatever the remote service answers: the
  payloads of the chunks handed off, in hand-off order, followed by what is left in the
  buffer, are the bytes written; the \<open>i\<close>-th chunk handed off (from zero) has id
  \<open>i + 1\<close>, so hand-off order is id order; and when a chunk was handed off the buffer is
  empty at the end, the trailing bytes having been handed off as the last chunk (otherwise
  the buffer holds the whole input, which is what the simple upload sends). In the
  scenario the run returns 25 and nil, three chunks \<open>ABCDEFGHIJ\<close>, \<open>KLMNOPQRST\<close>,
  \<open>UVWXY\<close> with ids 1, 2, 3 are handed off, each is uploaded once, one
  \<^verbatim>\<open>finishLargeFile\<close> call follows, and the assembled object is the 25 bytes.
\<close>

theorem roundtrip:
  "(\<forall>E ps w rs w'.
      fresh w \<and> run_ops E (map DoWrite ps @ [DoClose]) w = Ret rs w' \<and> last rs = CloseRet None \<longrightarrow>
        concat (map chunk_buf (handed w')) @ cbuf w' = concat ps \<and>
        (\<forall>i<length (handed w'). chunk_id (handed w' ! i) = int i + 1) \<and>
        (handed w' \<noteq> [] \<longrightarrow> cbuf w' = [])) \<and>
   scenario = Ret [WriteRet 25 None, CloseRet None]
    \<lparr>ConcurrentUploads = 2, ContentType = [], Info = [], csize = 10,
     ctx_done = False, cancels = 0, ready = Closed, offer = None, wg = 0,
     once_fired = True, done_fired = True, file_set = True, o_f = Some 7,
     name = ''obj'', cbuf = [], cidx = 3, chsh = [], err = None,
     workers = [WExit, WExit],
     calls =
       [StartLargeFile ''obj'' ''application/octet-stream'' [] None,
        GetUploadPartURL (Inr 1), GetUploadPartURL (Inr 2),
        UploadPart 1 ''ABCDEFGHIJ'' ''ABCDEFGHIJ'' 10 1 10 10 None,
        UploadPart 2 ''KLMNOPQRST'' ''KLMNOPQRST'' 10 2 10 10 None,
        UploadPart 1 ''UVWXY'' ''UVWXY'' 5 3 5 5 None,
        FinishLargeFile (Inr 7)],
     handed =
       [\<lparr>chunk_id = 1, chunk_size = 10, chunk_sha1 = ''ABCDEFGHIJ'',
           chunk_buf = ''ABCDEFGHIJ''\<rparr>,
        \<lparr>chunk_id = 2, chunk_size = 10, chunk_sha1 = ''KLMNOPQRST'',
           chunk_buf = ''KLMNOPQRST''\<rparr>,
        \<lparr>chunk_id = 3, chunk_size = 5, chunk_sha1 = ''UVWXY'',
           chunk_buf = ''UVWXY''\<rparr>],
     sched = []\<rparr> \<and>
   assembled (calls (state_of scenario)) = ''ABCDEFGHIJKLMNOPQRSTUVWXY''"
proof (intro conjI allI impI)
  fix E ps w rs w'
  assume a: "fresh w \<and> run_ops E (map DoWrite ps @ [DoClose]) w = Ret rs w' \<and>
    last rs = CloseRet None"
  then have run: "run_ops E (map DoWrite ps @ [DoClose]) w = Ret rs w'" and f: "fresh w"
    by simp_all
  from session_success [OF run] a have e: "err w' = None" by simp
  note rt = session_roundtrip [OF f run e]
  from rt show "concat (map chunk_buf (handed w')) @ cbuf w' = concat ps" by simp
  from rt show "handed w' \<noteq> [] \<Longrightarrow> cbuf w' = []" by simp
  from run_ops_ids [of w E "map DoWrite ps @ [DoClose]"] fresh_ok [OF f] run
  have "ids_ok w'" by simp
  then show "\<And>i. i < length (handed w') \<Longrightarrow> chunk_id (handed w' ! i) = int i + 1"
    by (simp add: ids_ok_def)
qed (rule scenario_eval, rule scenario_assembled)

theorem roundtrip_witness:
  "fresh (new_writer ''obj'' 10 2 scenario_sched) \<and>
   last [WriteRet 25 None, CloseRet None] = CloseRet None \<and>
   concat (map chunk_buf (handed (state_of scenario))) @ cbuf (state_of scenario)
     = concat [''ABCDEFGHIJKLMNOPQRSTUVWXY'']"
proof -
  from roundtrip have
    univ: "\<And>E ps w rs w'. fresh w \<Longrightarrow> run_ops E (map DoWrite ps @ [DoClose]) w = Ret rs w' \<Longrightarrow>
       last rs = CloseRet None \<Longrightarrow> concat (map chunk_buf (handed w')) @ cbuf w' = concat ps"
    and ev: "\<exists>w'. scenario = Ret [WriteRet 25 None, CloseRet None] w'"
    by blast+
  from ev obtain w' where w': "scenario = Ret [WriteRet 25 None, CloseRet None] w'" by blast
  have f: "fresh (new_writer ''obj'' 10 2 scenario_sched)" by (simp add: fresh_new_writer)
  have "run_ops honest (map DoWrite [''ABCDEFGHIJKLMNOPQRSTUVWXY''] @ [DoClose])
      (new_writer ''obj'' 10 2 scenario_sched) = Ret [WriteRet 25 None, CloseRet None] w'"
    using w' by (simp add: scenario_def)
  from univ [OF f this] have "concat (map chunk_buf (handed w')) @ cbuf w'
      = concat [''ABCDEFGHIJKLMNOPQRSTUVWXY'']" by simp
  moreover have "state_of scenario = w'" by (simp add: w')
  ultimately show ?thesis using f by simp
qed

subsection \<open>Independence of the partition into writes\<close>

lemma sendChunk_csize [simp]: "csize (state_of (sendChunk E v)) = csize v"
proof (cases rule: sendChunk_cases [of E v])
  case (sent w')
  with sendChunk_sent_effect [OF sent] show ?thesis by simp
next
  case unsent
  with sendChunk_unsent_effect [OF refl unsent] show ?thesis by simp
qed

lemma sendChunk_threshold [simp]: "threshold (state_of (sendChunk E v)) = threshold v"
  by (simp add: threshold_def)

lemma run_ops_threshold: "threshold (state_of (run_ops E ops w)) = threshold w"
proof -
  have "(\<lambda>v. threshold v = threshold w) (state_of (run_ops E ops w))"
    by (rule run_ops_preserves [where Q = "\<lambda>v. threshold v = threshold w"])
       (simp_all, auto simp: threshold_def split: if_splits)
  then show ?thesis .
qed

lemma fresh_full_ok: "fresh w \<Longrightarrow> full_ok w"
  by (simp add: fresh_def full_ok_def threshold_def)

lemma writes_explicit:
  assumes "fresh w" "run_ops E (map DoWrite ps) w = Ret rs w'" "err w' = None"
  shows "handed w' = spec_parts E 0 (spec_chunks (nat (threshold w)) (concat ps)) \<and>
         cbuf w' = spec_rest (nat (threshold w)) (concat ps)"
proof -
  have pre: "chsh w = cbuf w" "int (length (cbuf w)) < threshold w" "cbuf w = []"
    "handed w = []" "cidx w = 0"
    using assms(1) threshold_pos [of w] by (simp_all add: fresh_def)
  from writes_char [OF assms(2,3) pre(1,2), unfolded pre, simplified] show ?thesis by simp
qed

text \<open>
  Claim C10. After a run of writes that leaves no error recorded, the chunks handed off
  and the buffer are a function of the concatenated bytes, the threshold \<open>n\<close> and the
  digest alone: there are \<open>L div n\<close> chunks, chunk \<open>i\<close> (from zero) has id \<open>i + 1\<close>,
  size \<open>n\<close> and the bytes from offset \<open>i * n\<close> to \<open>(i + 1) * n\<close>, and the buffer holds the
  bytes from offset \<open>(L div n) * n\<close> on. So two runs over different partitions of one byte
  sequence, under any schedules and any behaviour of the remote service, hand off the
  same chunks and end with the same buffer; and so do two whole sessions ending in a
  \<^verbatim>\<open>Close\<close> that returns nil.
\<close>

theorem chunks_depend_on_stream_only:
  "(fresh w \<and> run_ops E (map DoWrite ps) w = Ret rs w' \<and> err w' = None \<longrightarrow>
      length (handed w') = length (concat ps) div nat (threshold w) \<and>
      (\<forall>i<length (handed w').
         handed w' ! i =
           \<lparr>chunk_id = int i + 1, chunk_size = threshold w,
            chunk_sha1 = sha1_hex E (take (nat (threshold w)) (drop (i * nat (threshold w)) (concat ps))),
            chunk_buf = take (nat (threshold w)) (drop (i * nat (threshold w)) (concat ps))\<rparr> \<and>
         int (length (chunk_buf (handed w' ! i))) = threshold w) \<and>
      cbuf w' = drop (length (concat ps) div nat (threshold w) * nat (threshold w)) (concat ps)) \<and>
   (fresh w1 \<and> fresh w2 \<and> threshold w1 = threshold w2 \<and> sha1_hex E1 = sha1_hex E2 \<and>
    concat ps1 = concat ps2 \<and>
    run_ops E1 (map DoWrite ps1) w1 = Ret rs1 w1' \<and> err w1' = None \<and>
    run_ops E2 (map DoWrite ps2) w2 = Ret rs2 w2' \<and> err w2' = None \<longrightarrow>
      handed w1' = handed w2' \<and> cbuf w1' = cbuf w2') \<and>
   (fresh w1 \<and> fresh w2 \<and> threshold w1 = threshold w2 \<and> sha1_hex E1 = sha1_hex E2 \<and>
    concat ps1 = concat ps2 \<and>
    run_ops E1 (map DoWrite ps1 @ [DoClose]) w1 = Ret rs1 w1' \<and> err w1' = None \<and>
    run_ops E2 (map DoWrite ps2 @ [DoClose]) w2 = Ret rs2 w2' \<and> err w2' = None \<longrightarrow>
      handed w1' = handed w2' \<and> cbuf w1' = cbuf w2')"
proof (intro conjI impI)
  let ?n = "nat (threshold w)"
  let ?bs = "concat ps"
  assume a: "fresh w \<and> run_ops E (map DoWrite ps) w = Ret rs w' \<and> err w' = None"
  then have f: "fresh w" by simp
  from a have ex: "handed w' = spec_parts E 0 (spec_chunks ?n ?bs)" "cbuf w' = spec_rest ?n ?bs"
    using writes_explicit [of w E ps rs w'] by simp_all
  have n: "0 < ?n" "int ?n = threshold w" using threshold_pos [of w] f by (simp_all add: fresh_def)
  show "length (handed w') = length ?bs div ?n"
    by (simp add: ex spec_chunks_count [OF n(1)])
  show "cbuf w' = drop (length ?bs div ?n * ?n) ?bs"
    by (simp add: ex spec_rest_drop [OF n(1)])
  show "\<forall>i<length (handed w').
         handed w' ! i =
           \<lparr>chunk_id = int i + 1, chunk_size = threshold w,
            chunk_sha1 = sha1_hex E (take ?n (drop (i * ?n) ?bs)),
            chunk_buf = take ?n (drop (i * ?n) ?bs)\<rparr> \<and>
         int (length (chunk_buf (handed w' ! i))) = threshold w"
  proof (intro allI impI)
    fix i
    assume "i < length (handed w')"
    then have i: "i < length (spec_chunks ?n ?bs)" by (simp add: ex)
    then have len: "length (spec_chunks ?n ?bs ! i) = ?n"
      by (rule spec_chunks_length [OF nth_mem])
    from i spec_chunks_nth [OF i] len n(2) len [unfolded spec_chunks_nth [OF i]]
    show "handed w' ! i =
           \<lparr>chunk_id = int i + 1, chunk_size = threshold w,
            chunk_sha1 = sha1_hex E (take ?n (drop (i * ?n) ?bs)),
            chunk_buf = take ?n (drop (i * ?n) ?bs)\<rparr> \<and>
         int (length (chunk_buf (handed w' ! i))) = threshold w"
      by (simp add: ex spec_parts_nth del: length_take)
  qed
next
  assume a: "fresh w1 \<and> fresh w2 \<and> threshold w1 = threshold w2 \<and> sha1_hex E1 = sha1_hex E2 \<and>
    concat ps1 = concat ps2 \<and>
    run_ops E1 (map DoWrite ps1) w1 = Ret rs1 w1' \<and> err w1' = None \<and>
    run_ops E2 (map DoWrite ps2) w2 = Ret rs2 w2' \<and> err w2' = None"
  then have "sha1_hex E1 = sha1_hex E2" by simp
  note cg = spec_parts_cong [OF this]
  from a writes_explicit [of w1 E1 ps1 rs1 w1'] writes_explicit [of w2 E2 ps2 rs2 w2']
  show "handed w1' = handed w2'" "cbuf w1' = cbuf w2'"
    by (simp_all add: cg)
next
  assume a: "fresh w1 \<and> fresh w2 \<and> threshold w1 = threshold w2 \<and> sha1_hex E1 = sha1_hex E2 \<and>
    concat ps1 = concat ps2 \<and>
    run_ops E1 (map DoWrite ps1 @ [DoClose]) w1 = Ret rs1 w1' \<and> err w1' = None \<and>
    run_ops E2 (map DoWrite ps2 @ [DoClose]) w2 = Ret rs2 w2' \<and> err w2' = None"
  then have "sha1_hex E1 = sha1_hex E2" by simp
  note cg = spec_parts_cong [OF this]
  from a session_char [of w1 E1 ps1 rs1 w1'] session_char [of w2 E2 ps2 rs2 w2']
  show "handed w1' = handed w2'" "cbuf w1' = cbuf w2'"
    by (simp_all add: cg)
qed

lemma partition_runs_eval:
  "(case partition_run1 of Ret rs w \<Rightarrow> err w = None | Stuck r w \<Rightarrow> False) \<and>
   (case partition_run2 of Ret rs w \<Rightarrow> err w = None | Stuck r w \<Rightarrow> False)"
  by code_simp

theorem chunks_depend_on_stream_only_witness:
  "fresh (new_writer ''obj'' 10 2 partition_sched1) \<and>
   fresh (new_writer ''obj'' 10 2 partition_sched2) \<and>
   concat [''ABCDEFGHIJKLMNOPQRSTUVWXY''] = concat [''ABCDE'', ''FGHIJKLMNOPQ'', ''RSTUVWXY''] \<and>
   handed (state_of partition_run1) = handed (state_of partition_run2) \<and>
   cbuf (state_of partition_run1) = cbuf (state_of partition_run2)"
proof -
  from partition_runs_eval obtain rs1 v1 rs2 v2 where
    r: "partition_run1 = Ret rs1 v1" "err v1 = None" "partition_run2 = Ret rs2 v2" "err v2 = None"
    by (auto split: outcome.splits)
  have f: "fresh (new_writer ''obj'' 10 2 partition_sched1)"
    "fresh (new_writer ''obj'' 10 2 partition_sched2)"
    by (simp_all add: fresh_new_writer)
  have t: "threshold (new_writer ''obj'' 10 2 partition_sched1)
      = threshold (new_writer ''obj'' 10 2 partition_sched2)"
    by (simp add: threshold_def new_writer_def)
  have c: "concat [''ABCDEFGHIJKLMNOPQRSTUVWXY''] = concat [''ABCDE'', ''FGHIJKLMNOPQ'', ''RSTUVWXY'']"
    by simp
  from chunks_depend_on_stream_only
    [of undefined undefined undefined undefined undefined
      "new_writer ''obj'' 10 2 partition_sched1" "new_writer ''obj'' 10 2 partition_sched2"
      honest honest "[''ABCDEFGHIJKLMNOPQRSTUVWXY'']" "[''ABCDE'', ''FGHIJKLMNOPQ'', ''RSTUVWXY'']"
      rs1 v1 rs2 v2]
    f t c r
  have "handed v1 = handed v2 \<and> cbuf v1 = cbuf v2"
    by (simp add: partition_run1_def partition_run2_def)
  moreover have "state_of partition_run1 = v1" "state_of partition_run2 = v2"
    by (simp_all add: r)
  ultimately show ?thesis using f by simp
qed

subsection \<open>Chunk ids; the start of the large file\<close>

lemma spec_parts_Nil_iff [simp]: "spec_parts E k bs = [] \<longleftrightarrow> bs = []"
  by (cases bs) simp_all

lemma writes_state:
  assumes "fresh w"
  shows "full_ok (state_of (run_ops E (map DoWrite ps) w)) \<and>
         ids_ok (state_of (run_ops E (map DoWrite ps) w)) \<and>
         chsh (state_of (run_ops E (map DoWrite ps) w)) = cbuf (state_of (run_ops E (map DoWrite ps) w)) \<and>
         threshold (state_of (run_ops E (map DoWrite ps) w)) = threshold w"
  using writes_full [OF fresh_full_ok [OF assms]] run_ops_ids fresh_ok [OF assms]
    run_ops_sync [of w E "map DoWrite ps"] run_ops_threshold assms
  by (simp add: fresh_def)

text \<open>
  Claim C4. From a fresh writer, after any sequence of calls, under any schedule and
  whatever the remote service answers (and also when the run blocks, panics or never
  returns), the chunk index equals the number of chunks handed off and the \<open>i\<close>-th
  chunk handed off (from zero) has id \<open>i + 1\<close>: the ids are 1, 2, ..., k in hand-off
  order. While only \<^verbatim>\<open>Write\<close> is called, every chunk handed off holds exactly as many
  bytes as the threshold, so the trailing buffer is never handed off by a
  \<^verbatim>\<open>Write\<close>. A \<^verbatim>\<open>Close\<close> hands off either nothing or exactly one chunk, the non-empty
  buffer, with the next id; and a \<^verbatim>\<open>Close\<close> that returns nil after at least one chunk
  was handed off, with a non-empty buffer, does hand it off as the last chunk.
\<close>

theorem chunk_ids_sequential:
  "fresh w \<longrightarrow>
     (cidx (state_of (run_ops E ops w)) = int (length (handed (state_of (run_ops E ops w)))) \<and>
      (\<forall>i<length (handed (state_of (run_ops E ops w))).
          chunk_id (handed (state_of (run_ops E ops w)) ! i) = int i + 1)) \<and>
     (\<forall>c\<in>set (handed (state_of (run_ops E (map DoWrite ps) w))).
          int (length (chunk_buf c)) = threshold w \<and> chunk_size c = threshold w) \<and>
     (\<forall>rs w1. run_ops E (map DoWrite ps) w = Ret rs w1 \<longrightarrow>
        (handed (state_of (Close E w1)) = handed w1 \<or>
         cbuf w1 \<noteq> [] \<and>
         handed (state_of (Close E w1)) = handed w1 @
           [\<lparr>chunk_id = int (length (handed w1)) + 1, chunk_size = int (length (cbuf w1)),
             chunk_sha1 = sha1_hex E (cbuf w1), chunk_buf = cbuf w1\<rparr>]) \<and>
        (\<forall>w2. Close E w1 = Ret None w2 \<and> handed w1 \<noteq> [] \<and> cbuf w1 \<noteq> [] \<longrightarrow>
           handed w2 = handed w1 @
             [\<lparr>chunk_id = int (length (handed w1)) + 1, chunk_size = int (length (cbuf w1)),
               chunk_sha1 = sha1_hex E (cbuf w1), chunk_buf = cbuf w1\<rparr>]))"
proof (intro impI conjI allI ballI)
  assume f: "fresh w"
  from run_ops_ids [of w E ops] fresh_ok [OF f]
  have ids: "ids_ok (state_of (run_ops E ops w))" by simp
  then show "cidx (state_of (run_ops E ops w)) = int (length (handed (state_of (run_ops E ops w))))"
    by (simp add: ids_ok_def)
  fix i
  assume "i < length (handed (state_of (run_ops E ops w)))"
  with ids show "chunk_id (handed (state_of (run_ops E ops w)) ! i) = int i + 1"
    by (simp add: ids_ok_def)
next
  fix c
  assume f: "fresh w" and c: "c \<in> set (handed (state_of (run_ops E (map DoWrite ps) w)))"
  from writes_state [OF f, of E ps] c
  show "int (length (chunk_buf c)) = threshold w" "chunk_size c = threshold w"
    by (simp_all add: full_ok_def)
next
  fix rs w1
  assume f: "fresh w" and r: "run_ops E (map DoWrite ps) w = Ret rs w1"
  from writes_state [OF f, of E ps] r have
    st: "full_ok w1" "ids_ok w1" "chsh w1 = cbuf w1" by simp_all
  from Close_handed [of E w1] st(2,3)
  show "handed (state_of (Close E w1)) = handed w1 \<or>
         cbuf w1 \<noteq> [] \<and>
         handed (state_of (Close E w1)) = handed w1 @
           [\<lparr>chunk_id = int (length (handed w1)) + 1, chunk_size = int (length (cbuf w1)),
             chunk_sha1 = sha1_hex E (cbuf w1), chunk_buf = cbuf w1\<rparr>]"
    by (auto simp: ids_ok_def)
  fix w2
  assume c: "Close E w1 = Ret None w2 \<and> handed w1 \<noteq> [] \<and> cbuf w1 \<noteq> []"
  then have cl: "Close E w1 = Ret None w2" by simp
  from Close_ret_err [OF cl] have e: "err w2 = None" by simp
  from st(1) have nd: "\<not> done_fired w1" by (simp add: full_ok_def)
  from Close_char [OF cl e nd st(3)] c st(2)
  show "handed w2 = handed w1 @
             [\<lparr>chunk_id = int (length (handed w1)) + 1, chunk_size = int (length (cbuf w1)),
               chunk_sha1 = sha1_hex E (cbuf w1), chunk_buf = cbuf w1\<rparr>]"
    by (simp add: ids_ok_def)
qed

theorem chunk_ids_sequential_witness:
  "fresh (new_writer ''obj'' 10 2 scenario_sched) \<and>
   map chunk_id (handed (state_of scenario)) = [1, 2, 3] \<and>
   cidx (state_of scenario) = 3"
proof -
  have f: "fresh (new_writer ''obj'' 10 2 scenario_sched)" by (simp add: fresh_new_writer)
  from chunk_ids_sequential [of "new_writer ''obj'' 10 2 scenario_sched" honest
      "[DoWrite ''ABCDEFGHIJKLMNOPQRSTUVWXY'', DoClose]" "[]"] f
  have a: "cidx (state_of scenario) = int (length (handed (state_of scenario)))"
    and b: "\<forall>i<length (handed (state_of scenario)).
          chunk_id (handed (state_of scenario) ! i) = int i + 1"
    by (simp_all add: scenario_def)
  have l: "length (handed (state_of scenario)) = 3" by (simp add: scenario_eval)
  have "map chunk_id (handed (state_of scenario)) = map (\<lambda>i. int i + 1) [0..<3]"
    using b l by (intro nth_equalityI) simp_all
  also have "\<dots> = [1, 2, 3]" by (simp add: upt_rec)
  finally show ?thesis using a l f by simp
qed

text \<open>
  Claim C7. From a fresh writer, after any sequence of calls, at any concurrency level,
  under any schedule and whatever the remote service answers, the history holds at most one
  \<^verbatim>\<open>startLargeFile\<close> call, and exactly one as soon as a chunk has been handed off; a session
  whose \<^verbatim>\<open>Close\<close> returns nil and whose input is at least as long as the threshold holds
  exactly one. The call is made by the first \<^verbatim>\<open>sendChunk\<close>: a \<^verbatim>\<open>sendChunk\<close> on a writer
  whose \<^verbatim>\<open>sync.Once\<close> has not fired adds one such call and fires it, a \<^verbatim>\<open>sendChunk\<close> on
  a writer whose \<^verbatim>\<open>sync.Once\<close> has fired adds none.
\<close>

theorem large_file_started_once:
  "(fresh w \<longrightarrow>
      starts (calls (state_of (run_ops E ops w))) \<le> 1 \<and>
      (handed (state_of (run_ops E ops w)) \<noteq> [] \<longrightarrow>
         starts (calls (state_of (run_ops E ops w))) = 1) \<and>
      (\<forall>rs w'. run_ops E (map DoWrite ps @ [DoClose]) w = Ret rs w' \<and> last rs = CloseRet None \<and>
          threshold w \<le> int (length (concat ps)) \<longrightarrow> starts (calls w') = 1)) \<and>
   starts (calls (state_of (sendChunk E v))) = starts (calls v) + (if once_fired v then 0 else 1) \<and>
   once_fired (state_of (sendChunk E v))"
proof (intro conjI impI allI)
  assume f: "fresh w"
  from run_ops_start_ok [of w E ops] fresh_ok [OF f]
  have so: "start_ok (state_of (run_ops E ops w))" by simp
  then show "starts (calls (state_of (run_ops E ops w))) \<le> 1" by (simp add: start_ok_def)
  show "starts (calls (state_of (run_ops E ops w))) = 1"
    if "handed (state_of (run_ops E ops w)) \<noteq> []"
    using so that by (simp add: start_ok_def)
next
  fix rs w'
  let ?n = "nat (threshold w)"
  assume f: "fresh w"
    and a: "run_ops E (map DoWrite ps @ [DoClose]) w = Ret rs w' \<and> last rs = CloseRet None \<and>
          threshold w \<le> int (length (concat ps))"
  then have run: "run_ops E (map DoWrite ps @ [DoClose]) w = Ret rs w'" by simp
  from session_success [OF run] a have e: "err w' = None" by simp
  have "0 < threshold w" using threshold_pos [of w] f by (simp add: fresh_def)
  with a have n: "0 < ?n" "?n \<le> length (concat ps)" by linarith+
  then have "spec_chunks ?n (concat ps) \<noteq> []" using spec_long [OF n] by simp
  with session_char [OF f run e] have h: "handed w' \<noteq> []" by simp
  from run_ops_start_ok [of w E "map DoWrite ps @ [DoClose]"] fresh_ok [OF f] run
  have "start_ok w'" by simp
  with h show "starts (calls w') = 1" by (simp add: start_ok_def)
qed (simp_all add: sendChunk_starts)

theorem large_file_started_once_witness:
  "fresh (new_writer ''obj'' 10 2 scenario_sched) \<and>
   handed (state_of scenario) \<noteq> [] \<and>
   starts (calls (state_of scenario)) = 1"
proof -
  have f: "fresh (new_writer ''obj'' 10 2 scenario_sched)" by (simp add: fresh_new_writer)
  have h: "handed (state_of scenario) \<noteq> []" by (simp add: scenario_eval)
  from large_file_started_once [where w = "new_writer ''obj'' 10 2 scenario_sched"
      and E = honest and ops = "[DoWrite ''ABCDEFGHIJKLMNOPQRSTUVWXY'', DoClose]"] f h
  have "starts (calls (state_of scenario)) = 1" by (simp add: scenario_def)
  with f h show ?thesis by simp
qed


subsection \<open>Runs at the boundary, with a retry, and with a late goroutine\<close>

lemma boundary_run_eval:
  "boundary_run = Ret [WriteRet 10 None, CloseRet None]
    \<lparr>ConcurrentUploads = 1, ContentType = [], Info = [], csize = 10,
     ctx_done = False, cancels = 0, ready = Closed, offer = None, wg = 0,
     once_fired = True, done_fired = True, file_set = True, o_f = Some 7,
     name = ''obj'', cbuf = [], cidx = 1, chsh = [], err = None,
     workers = [WExit],
     calls =
       [StartLargeFile ''obj'' ''application/octet-stream'' [] None,
        GetUploadPartURL (Inr 1),
        UploadPart 1 ''ABCDEFGHIJ'' ''ABCDEFGHIJ'' 10 1 10 10 None,
        FinishLargeFile (Inr 7)],
     handed =
       [\<lparr>chunk_id = 1, chunk_size = 10, chunk_sha1 = ''ABCDEFGHIJ'',
           chunk_buf = ''ABCDEFGHIJ''\<rparr>],
     sched = []\<rparr>"
  by code_simp

text \<open>
  Claim C2, at the boundary. An object of exactly as many bytes as the threshold is not
  uploaded by the simple upload: the \<^verbatim>\<open>Write\<close> fills the buffer to the threshold, hands
  it off as chunk 1 and starts the large file; \<^verbatim>\<open>Close\<close> finishes the large file. The
  history holds one \<^verbatim>\<open>startLargeFile\<close>, one part upload and one \<^verbatim>\<open>finishLargeFile\<close>, and no
  call of the simple upload.
\<close>

theorem boundary_object_uses_large_file:
  "int (length ''ABCDEFGHIJ'') = threshold (new_writer ''obj'' 10 1 [[], [0, 0, 0], [0], [0], [], []]) \<and>
   boundary_run = Ret [WriteRet 10 None, CloseRet None]
    \<lparr>ConcurrentUploads = 1, ContentType = [], Info = [], csize = 10,
     ctx_done = False, cancels = 0, ready = Closed, offer = None, wg = 0,
     once_fired = True, done_fired = True, file_set = True, o_f = Some 7,
     name = ''obj'', cbuf = [], cidx = 1, chsh = [], err = None,
     workers = [WExit],
     calls =
       [StartLargeFile ''obj'' ''application/octet-stream'' [] None,
        GetUploadPartURL (Inr 1),
        UploadPart 1 ''ABCDEFGHIJ'' ''ABCDEFGHIJ'' 10 1 10 10 None,
        FinishLargeFile (Inr 7)],
     handed =
       [\<lparr>chunk_id = 1, chunk_size = 10, chunk_sha1 = ''ABCDEFGHIJ'',
           chunk_buf = ''ABCDEFGHIJ''\<rparr>],
     sched = []\<rparr> \<and>
   filter (\<lambda>c. \<not> is_multipart c) (calls (state_of boundary_run)) = [] \<and>
   starts (calls (state_of boundary_run)) = 1"
  by (simp add: boundary_run_eval threshold_def new_writer_def)

lemma retry_run_eval:
  "retry_run = Ret [WriteRet 10 None, CloseRet (Some (RemoteError ''400''))]
    \<lparr>ConcurrentUploads = 1, ContentType = [], Info = [], csize = 10,
     ctx_done = True, cancels = 1, ready = Closed, offer = None, wg = 0,
     once_fired = True, done_fired = True, file_set = True, o_f = Some 7,
     name = ''obj'', cbuf = [], cidx = 1, chsh = [],
     err = Some (RemoteError ''400''), workers = [WExit],
     calls =
       [StartLargeFile ''obj'' ''application/octet-stream'' [] None,
        GetUploadPartURL (Inr 1),
        UploadPart 1 ''ABCDEFGHIJ'' ''ABCDEFGHIJ'' 10 1 10 0 (Some (RemoteError ''503'')),
        GetUploadPartURL (Inr 3),
        UploadPart 3 [] ''ABCDEFGHIJ'' 10 1 0 0 (Some (RemoteError ''400'')),
        FinishLargeFile (Inr 7)],
     handed =
       [\<lparr>chunk_id = 1, chunk_size = 10, chunk_sha1 = ''ABCDEFGHIJ'',
           chunk_buf = ''ABCDEFGHIJ''\<rparr>],
     sched = []\<rparr>"
  by code_simp

text \<open>
  Claim C3, at a retry. The first \<^verbatim>\<open>uploadPart\<close> call for chunk 1 is offered the ten bytes,
  reads them and fails with an error the retry predicate accepts. The goroutine obtains a
  new upload URL and calls \<^verbatim>\<open>uploadPart\<close> again with the same digest, size and id, but
  with the reader at its end: the second call is offered no bytes. The service rejects
  it, the error is recorded, and \<^verbatim>\<open>Close\<close> returns it; no part is stored.
\<close>

theorem retry_uploads_what_is_left_of_the_reader:
  "reupload flaky (Some (RemoteError ''503'')) \<and>
   retry_run = Ret [WriteRet 10 None, CloseRet (Some (RemoteError ''400''))]
    \<lparr>ConcurrentUploads = 1, ContentType = [], Info = [], csize = 10,
     ctx_done = True, cancels = 1, ready = Closed, offer = None, wg = 0,
     once_fired = True, done_fired = True, file_set = True, o_f = Some 7,
     name = ''obj'', cbuf = [], cidx = 1, chsh = [],
     err = Some (RemoteError ''400''), workers = [WExit],
     calls =
       [StartLargeFile ''obj'' ''application/octet-stream'' [] None,
        GetUploadPartURL (Inr 1),
        UploadPart 1 ''ABCDEFGHIJ'' ''ABCDEFGHIJ'' 10 1 10 0 (Some (RemoteError ''503'')),
        GetUploadPartURL (Inr 3),
        UploadPart 3 [] ''ABCDEFGHIJ'' 10 1 0 0 (Some (RemoteError ''400'')),
        FinishLargeFile (Inr 7)],
     handed =
       [\<lparr>chunk_id = 1, chunk_size = 10, chunk_sha1 = ''ABCDEFGHIJ'',
           chunk_buf = ''ABCDEFGHIJ''\<rparr>],
     sched = []\<rparr> \<and>
   assembled (calls (state_of retry_run)) = []"
  by (simp add: retry_run_eval flaky_def honest_def assembled_def List.map_filter_def)

lemma late_run_eval:
  "late_run = Ret [WriteRet 10 None, CloseRet None]
    \<lparr>ConcurrentUploads = 2, ContentType = [], Info = [], csize = 10,
     ctx_done = False, cancels = 0, ready = Closed, offer = None, wg = 0,
     once_fired = True, done_fired = True, file_set = True, o_f = Some 7,
     name = ''obj'', cbuf = [], cidx = 1, chsh = [], err = None,
     workers = [WExit, WStart],
     calls =
       [StartLargeFile ''obj'' ''application/octet-stream'' [] None,
        GetUploadPartURL (Inr 1),
        UploadPart 1 ''ABCDEFGHIJ'' ''ABCDEFGHIJ'' 10 1 10 10 None,
        FinishLargeFile (Inr 7)],
     handed =
       [\<lparr>chunk_id = 1, chunk_size = 10, chunk_sha1 = ''ABCDEFGHIJ'',
           chunk_buf = ''ABCDEFGHIJ''\<rparr>],
     sched = []\<rparr>"
  by code_simp

lemma late_close_run_eval:
  "late_close_run = Ret [WriteRet 10 None, CloseRet (Some (RemoteError ''no upload URL''))]
    \<lparr>ConcurrentUploads = 2, ContentType = [], Info = [], csize = 10,
     ctx_done = True, cancels = 1, ready = Closed, offer = None, wg = 0,
     once_fired = True, done_fired = True, file_set = True, o_f = Some 7,
     name = ''obj'', cbuf = [], cidx = 1, chsh = [],
     err = Some (RemoteError ''no upload URL''), workers = [WExit, WExit],
     calls =
       [StartLargeFile ''obj'' ''application/octet-stream'' [] None,
        GetUploadPartURL (Inr 1),
        UploadPart 1 ''ABCDEFGHIJ'' ''ABCDEFGHIJ'' 10 1 10 10 None,
        FinishLargeFile (Inr 7),
        GetUploadPartURL (Inl (RemoteError ''no upload URL''))],
     handed =
       [\<lparr>chunk_id = 1, chunk_size = 10, chunk_sha1 = ''ABCDEFGHIJ'',
           chunk_buf = ''ABCDEFGHIJ''\<rparr>],
     sched = []\<rparr>"
  by code_simp

text \<open>
  Claim C8, with a goroutine that has not reached \<^verbatim>\<open>w.wg.Add(1)\<close>. In \<open>late_run\<close>
  goroutine 0 uploads chunk 1 and returns at the closed channel, the counter is zero,
  \<^verbatim>\<open>w.wg.Wait()\<close> returns, \<^verbatim>\<open>finishLargeFile\<close> is called and \<^verbatim>\<open>Close\<close> returns nil, while
  goroutine 1 still stands before its first request for an upload URL: it has not
  exited. In \<open>late_close_run\<close> that request is made after \<^verbatim>\<open>finishLargeFile\<close> and fails:
  the history shows it after the finish call, and the error it records is the one
  \<^verbatim>\<open>Close\<close> returns, so the error cell did not hold its final value when the large
  file was finished.
\<close>

theorem finish_does_not_wait_for_every_worker:
  "late_run = Ret [WriteRet 10 None, CloseRet None]
    \<lparr>ConcurrentUploads = 2, ContentType = [], Info = [], csize = 10,
     ctx_done = False, cancels = 0, ready = Closed, offer = None, wg = 0,
     once_fired = True, done_fired = True, file_set = True, o_f = Some 7,
     name = ''obj'', cbuf = [], cidx = 1, chsh = [], err = None,
     workers = [WExit, WStart],
     calls =
       [StartLargeFile ''obj'' ''application/octet-stream'' [] None,
        GetUploadPartURL (Inr 1),
        UploadPart 1 ''ABCDEFGHIJ'' ''ABCDEFGHIJ'' 10 1 10 10 None,
        FinishLargeFile (Inr 7)],
     handed =
       [\<lparr>chunk_id = 1, chunk_size = 10, chunk_sha1 = ''ABCDEFGHIJ'',
           chunk_buf = ''ABCDEFGHIJ''\<rparr>],
     sched = []\<rparr> \<and>
   late_close_run = Ret [WriteRet 10 None, CloseRet (Some (RemoteError ''no upload URL''))]
    \<lparr>ConcurrentUploads = 2, ContentType = [], Info = [], csize = 10,
     ctx_done = True, cancels = 1, ready = Closed, offer = None, wg = 0,
     once_fired = True, done_fired = True, file_set = True, o_f = Some 7,
     name = ''obj'', cbuf = [], cidx = 1, chsh = [],
     err = Some (RemoteError ''no upload URL''), workers = [WExit, WExit],
     calls =
       [StartLargeFile ''obj'' ''application/octet-stream'' [] None,
        GetUploadPartURL (Inr 1),
        UploadPart 1 ''ABCDEFGHIJ'' ''ABCDEFGHIJ'' 10 1 10 10 None,
        FinishLargeFile (Inr 7),
        GetUploadPartURL (Inl (RemoteError ''no upload URL''))],
     handed =
       [\<lparr>chunk_id = 1, chunk_size = 10, chunk_sha1 = ''ABCDEFGHIJ'',
           chunk_buf = ''ABCDEFGHIJ''\<rparr>],
     sched = []\<rparr>"
  using late_run_eval late_close_run_eval by (rule conjI)

subsection \<open>Close after Close\<close>

lemma Close_again: "done_fired w \<Longrightarrow> Close E w = Ret (err (yield E w)) (yield E w)"
  by (simp add: Close_def Let_def getErr_def)

lemma Close_repeat:
  assumes "done_fired w" "sched w = []"
  shows "run_ops E (replicate n DoClose) w = Ret (replicate n (CloseRet (err w))) w"
proof (induction n)
  case 0
  show ?case by simp
next
  case (Suc n)
  have "Close E w = Ret (err w) w" using assms by (simp add: Close_again yield_idle)
  with Suc show ?case by simp
qed

text \<open>
  Claim C6, at two calls of \<^verbatim>\<open>Close\<close> with a goroutine that outlived the first. The
  first \<^verbatim>\<open>Close\<close> returns nil although goroutine 1 has not exited (\<^verbatim>\<open>w.wg.Wait()\<close> does
  not count it, as it has not reached \<^verbatim>\<open>w.wg.Add(1)\<close>); goroutine 1 then fails to obtain
  an upload URL and records the error; the second \<^verbatim>\<open>Close\<close> returns that error, not the
  value the first one returned.
\<close>

theorem second_Close_returns_later_error:
  "twice_closed =
     Ret [WriteRet 10 None, CloseRet None, CloseRet (Some (RemoteError ''no upload URL''))]
    \<lparr>ConcurrentUploads = 2, ContentType = [], Info = [], csize = 10,
     ctx_done = True, cancels = 1, ready = Closed, offer = None, wg = 0,
     once_fired = True, done_fired = True, file_set = True, o_f = Some 7,
     name = ''obj'', cbuf = [], cidx = 1, chsh = [],
     err = Some (RemoteError ''no upload URL''), workers = [WExit, WExit],
     calls =
       [StartLargeFile ''obj'' ''application/octet-stream'' [] None,
        GetUploadPartURL (Inr 1),
        UploadPart 1 ''ABCDEFGHIJ'' ''ABCDEFGHIJ'' 10 1 10 10 None,
        FinishLargeFile (Inr 7),
        GetUploadPartURL (Inl (RemoteError ''no upload URL''))],
     handed =
       [\<lparr>chunk_id = 1, chunk_size = 10, chunk_sha1 = ''ABCDEFGHIJ'',
           chunk_buf = ''ABCDEFGHIJ''\<rparr>],
     sched = []\<rparr>"
  by code_simp

text \<open>
  What does hold of a repeated \<^verbatim>\<open>Close\<close>. A \<^verbatim>\<open>Close\<close> on a writer whose finalizer has
  run only passes the scheduling point and reads the error cell: the state it returns is
  the one the goroutines' own steps produce, and it returns the error recorded there.
  After a first \<^verbatim>\<open>Close\<close> that returned \<open>e\<close> the finalizer has run and \<open>e\<close> is the
  recorded error; so a \<^verbatim>\<open>Close\<close> that follows it directly, and any number of them,
  returns \<open>e\<close> and leaves the state as it is when no goroutine takes a step in between,
  and returns \<open>e\<close> in any case when \<open>e\<close> is an error.
\<close>

theorem Close_runs_once:
  "(done_fired w \<longrightarrow> Close E w = Ret (err (yield E w)) (yield E w)) \<and>
   (Close E w = Ret e w1 \<longrightarrow>
      done_fired w1 \<and> e = err w1 \<and>
      Close E w1 = Ret (err (yield E w1)) (yield E w1) \<and>
      (sched w1 = [] \<longrightarrow>
         Close E w1 = Ret e w1 \<and>
         run_ops E (replicate n DoClose) w1 = Ret (replicate n (CloseRet e)) w1) \<and>
      (e \<noteq> None \<longrightarrow> Close E w1 = Ret e (yield E w1)))"
proof (intro conjI impI)
  assume "done_fired w"
  then show "Close E w = Ret (err (yield E w)) (yield E w)" by (rule Close_again)
next
  assume c: "Close E w = Ret e w1"
  from Close_ret_err [OF c] show d: "done_fired w1" and e: "e = err w1" by simp_all
  from d show a: "Close E w1 = Ret (err (yield E w1)) (yield E w1)" by (rule Close_again)
  show "Close E w1 = Ret e w1" if "sched w1 = []"
    using a that e by (simp add: yield_idle)
  show "run_ops E (replicate n DoClose) w1 = Ret (replicate n (CloseRet e)) w1"
    if "sched w1 = []"
    using Close_repeat [OF d that] e by simp
  show "Close E w1 = Ret e (yield E w1)" if "e \<noteq> None"
  proof -
    from that e obtain x where x: "err w1 = Some x" by auto
    from yield_err_sticky [OF x, of E] a e x show ?thesis by simp
  qed
qed

theorem Close_runs_once_witness:
  "done_fired (state_of scenario) \<and>
   Close honest (state_of scenario) = Ret None (state_of scenario)"
proof -
  have d: "done_fired (state_of scenario)" by (simp add: scenario_eval)
  have y: "yield honest (state_of scenario) = state_of scenario"
    by (simp add: scenario_eval yield_def)
  have e: "err (state_of scenario) = None" by (simp add: scenario_eval)
  from Close_runs_once [of "state_of scenario" honest None "state_of scenario" 0, THEN conjunct1] d
  have "Close honest (state_of scenario)
      = Ret (err (yield honest (state_of scenario))) (yield honest (state_of scenario))"
    by simp
  with d y e show ?thesis by simp
qed

text \<open>
  Once every goroutine has exited, which is what \<^verbatim>\<open>w.wg.Wait()\<close> is there to ensure,
  a second \<^verbatim>\<open>Close\<close> returns the value of the first under every schedule: the run
  \<open>twice_closed\<close> is possible only because a goroutine outlives the first \<^verbatim>\<open>Close\<close>.
\<close>

lemma exited_wstep: "\<forall>s\<in>set (workers w). s = WExit \<Longrightarrow> wstep E i w = w"
proof (cases "length (workers w) \<le> i")
  case True
  then show ?thesis by (simp add: wstep_def)
next
  case False
  assume "\<forall>s\<in>set (workers w). s = WExit"
  with False have "workers w ! i = WExit" by simp
  with False show ?thesis by (simp add: wstep_def)
qed

lemma exited_wsteps: "\<forall>s\<in>set (workers w). s = WExit \<Longrightarrow> wsteps E js w = w"
  by (induction js) (simp_all add: exited_wstep)

lemma exited_yield:
  "\<forall>s\<in>set (workers w). s = WExit \<Longrightarrow> yield E w = w\<lparr>sched := tl (sched w)\<rparr>"
proof (cases "sched w")
  case Nil
  then show ?thesis by (simp add: yield_def)
next
  case (Cons js rest)
  assume a: "\<forall>s\<in>set (workers w). s = WExit"
  then have "\<forall>s\<in>set (workers (w\<lparr>sched := rest\<rparr>)). s = WExit" by simp
  from exited_wsteps [OF this, of E js] Cons show ?thesis by (simp add: yield_def)
qed

lemma Close_same_when_workers_exited:
  assumes "Close E w = Ret e w1" "\<forall>s\<in>set (workers w1). s = WExit"
  shows "Close E w1 = Ret e (w1\<lparr>sched := tl (sched w1)\<rparr>)"
proof -
  from Close_ret_err [OF assms(1)] have d: "done_fired w1" and e: "e = err w1" by simp_all
  from Close_again [OF d, of E] exited_yield [OF assms(2), of E] e show ?thesis by simp
qed

subsection \<open>Objects at and below the threshold\<close>

lemma idle_wstep: "workers w = [] \<Longrightarrow> wstep E i w = w"
  by (simp add: wstep_def)

lemma idle_wsteps: "workers w = [] \<Longrightarrow> wsteps E js w = w"
  by (induction js) (simp_all add: idle_wstep)

lemma idle_yield: "workers w = [] \<Longrightarrow> yield E w = w\<lparr>sched := tl (sched w)\<rparr>"
  by (cases "sched w") (simp_all add: yield_def idle_wsteps)

text \<open>
  Writes whose bytes stay below the threshold only fill the buffer: no chunk is handed
  off, no goroutine exists, no remote call is made.
\<close>

lemma small_writes:
  assumes "workers w = []" "err w = None"
    "int (length (cbuf w)) + int (length (concat ps)) < threshold w"
  shows "\<exists>w'. run_ops E (map DoWrite ps) w
           = Ret (map (\<lambda>p. WriteRet (int (length p)) None) ps) w' \<and>
         workers w' = [] \<and> err w' = None \<and> calls w' = calls w \<and> handed w' = handed w \<and>
         cidx w' = cidx w \<and> cbuf w' = cbuf w @ concat ps \<and> chsh w' = chsh w @ concat ps \<and>
         done_fired w' = done_fired w \<and> once_fired w' = once_fired w \<and>
         threshold w' = threshold w \<and> name w' = name w \<and> Info w' = Info w \<and>
         ContentType w' = ContentType w"
  using assms
proof (induction ps arbitrary: w)
  case Nil
  then show ?case by simp
next
  case (Cons p ps)
  let ?w1 = "(yield E w)\<lparr>csize := threshold w, chsh := chsh w @ p, cbuf := cbuf w @ p\<rparr>"
  have y: "yield E w = w\<lparr>sched := tl (sched w)\<rparr>" by (rule idle_yield [OF Cons.prems(1)])
  have fits: "int (length p) < room w" using Cons.prems(3) by (simp add: room_def)
  have wr: "Write E p w = Ret (int (length p), None) ?w1"
    using fits Cons.prems(2) by (simp add: Write_unfold [of E p w] y)
  have t1: "threshold ?w1 = threshold w" by (simp add: threshold_def y)
  have p1: "workers ?w1 = []" "err ?w1 = None"
    "int (length (cbuf ?w1)) + int (length (concat ps)) < threshold ?w1"
    unfolding t1 using Cons.prems by (simp_all add: y)
  from Cons.IH [OF p1] obtain w' where
    r: "run_ops E (map DoWrite ps) ?w1 = Ret (map (\<lambda>p. WriteRet (int (length p)) None) ps) w'"
    and st: "workers w' = []" "err w' = None" "calls w' = calls ?w1" "handed w' = handed ?w1"
      "cidx w' = cidx ?w1" "cbuf w' = cbuf ?w1 @ concat ps" "chsh w' = chsh ?w1 @ concat ps"
      "done_fired w' = done_fired ?w1" "once_fired w' = once_fired ?w1"
      "threshold w' = threshold ?w1" "name w' = name ?w1" "Info w' = Info ?w1"
      "ContentType w' = ContentType ?w1"
    by blast
  show ?case
    using r st wr t1 by (intro exI [of _ w']) (simp add: y)
qed

lemma small_session:
  assumes "fresh w" "int (length (concat ps)) < threshold w"
  shows "\<forall>c\<in>set (calls (state_of (run_ops E (map DoWrite ps @ [DoClose]) w))). \<not> is_multipart c"
    and "handed (state_of (run_ops E (map DoWrite ps @ [DoClose]) w)) = []"
proof -
  have pre: "workers w = []" "err w = None"
    "int (length (cbuf w)) + int (length (concat ps)) < threshold w"
    using assms by (simp_all add: fresh_def)
  from small_writes [OF pre, of E] obtain w1 where
    r: "run_ops E (map DoWrite ps) w = Ret (map (\<lambda>p. WriteRet (int (length p)) None) ps) w1"
    and st: "workers w1 = []" "calls w1 = []" "handed w1 = []" "cidx w1 = 0"
      "\<not> done_fired w1"
    using assms(1) by (auto simp: fresh_def)
  let ?w = "yield E (w1\<lparr>done_fired := True\<rparr>)"
  have yw: "?w = w1\<lparr>done_fired := True, sched := tl (sched w1)\<rparr>"
    using idle_yield [of "w1\<lparr>done_fired := True\<rparr>" E] st by simp
  have fin: "state_of (run_ops E (map DoWrite ps @ [DoClose]) w) = state_of (Close E w1)"
    using r by (cases "Close E w1") (simp_all add: run_ops_append)
  have "(\<forall>c\<in>set (calls (state_of (Close E w1))). \<not> is_multipart c) \<and>
        handed (state_of (Close E w1)) = []"
  proof (cases "simpleWriteFile E ?w")
    case None
    then show ?thesis using st by (simp add: Close_def close_body_def yw)
  next
    case (Some y)
    obtain e w2 where y: "y = (e, w2)" by (cases y)
    from simpleWriteFile_effect [OF Some] obtain cs where
      cs: "snd y = ?w\<lparr>calls := calls ?w @ cs, o_f := o_f (snd y)\<rparr>"
        "\<forall>c\<in>set cs. \<not> is_multipart c"
      by blast
    have c2: "calls w2 = cs" "workers w2 = []" "handed w2 = []"
      using arg_cong [OF cs(1), of calls] arg_cong [OF cs(1), of workers]
        arg_cong [OF cs(1), of handed] st y by (simp_all add: yw)
    have "Close E w1 = Ret (err (yield E (setErr e w2))) (yield E (setErr e w2))"
      using Some y st by (simp add: Close_def close_body_def Let_def getErr_def)
    moreover have "yield E (setErr e w2) = (setErr e w2)\<lparr>sched := tl (sched (setErr e w2))\<rparr>"
      by (rule idle_yield) (simp add: c2)
    ultimately show ?thesis using c2 cs(2) by simp
  qed
  with fin show "\<forall>c\<in>set (calls (state_of (run_ops E (map DoWrite ps @ [DoClose]) w))).
      \<not> is_multipart c"
    and "handed (state_of (run_ops E (map DoWrite ps @ [DoClose]) w)) = []"
    by simp_all
qed

text \<open>
  A write of exactly as many bytes as the threshold, into a fresh writer, starts the
  large file: under any schedule, whatever the remote service answers and whatever the
  threshold (the default included).
\<close>

lemma Write_once_fired: "once_fired w \<Longrightarrow> once_fired (state_of (Write E p w))"
  by (rule Write_preserves [where Q = once_fired])
     (simp_all add: sendChunk_starts)

lemma threshold_write_starts_large_file:
  assumes "fresh w" "int (length p) = threshold w"
  shows "once_fired (state_of (Write E p w)) \<and> starts (calls (state_of (Write E p w))) = 1"
proof -
  have y: "yield E w = w\<lparr>sched := tl (sched w)\<rparr>"
    using assms(1) by (intro idle_yield) (simp add: fresh_def)
  have e: "err (yield E w) = None" using assms(1) by (simp add: y fresh_def)
  have room: "room w = int (length p)" using assms by (simp add: room_def fresh_def)
  let ?s = "sendChunk E (filled E p w)"
  have o4: "once_fired (state_of ?s)" by (simp add: sendChunk_starts)
  have once: "once_fired (state_of (Write E p w))"
  proof (cases ?s)
    case (Stuck r w4)
    with o4 e room show ?thesis by (simp add: Write_unfold [of E p w])
  next
    case (Ret x w4)
    with o4 have o: "once_fired w4" by simp
    show ?thesis
    proof (cases x)
      case (Some err4)
      with Ret o e room show ?thesis by (simp add: Write_unfold [of E p w])
    next
      case None
      from Write_once_fired [OF o, of E "drop (nat (room w)) p"]
      show ?thesis using Ret None e room
        by (cases "Write E (drop (nat (room w)) p) w4")
           (auto simp: Write_unfold [of E p w])
    qed
  qed
  have "state_of (run_ops E [DoWrite p] w) = state_of (Write E p w)"
    by (cases "Write E p w") auto
  with run_ops_start_ok [of w E "[DoWrite p]"] fresh_ok [OF assms(1)]
  have "start_ok (state_of (Write E p w))" by simp
  with once show ?thesis by (simp add: start_ok_def)
qed

subsection \<open>What a retry passes to the upload call\<close>

text \<open>
  A goroutine whose upload failed and was found retriable asks for a new upload URL and
  calls \<^verbatim>\<open>uploadPart\<close> again with the same digest, size and id, and with the reader as the
  failed call left it: the bytes that call read are not offered again.
\<close>

lemma retry_keeps_chunk_and_reader_position:
  assumes "i < length (workers w)" "workers w ! i = WUpload fc c r"
    "uploadPart E (calls w) fc r (chunk_sha1 c) (chunk_size c) (chunk_id c) = (k, n, e)"
    "n \<noteq> chunk_size c \<or> e \<noteq> None" "reupload E e"
    "getUploadPartURL E (calls w @
        [UploadPart fc r (chunk_sha1 c) (chunk_size c) (chunk_id c) k n e]) = Inr f"
  shows "workers (wstep E i (wstep E i w)) ! i = WUpload f c (drop k r) \<and>
         calls (wstep E i (wstep E i (wstep E i w))) =
           calls w @
             [UploadPart fc r (chunk_sha1 c) (chunk_size c) (chunk_id c) k n e,
              GetUploadPartURL (Inr f),
              (case uploadPart E (calls (wstep E i (wstep E i w))) f (drop k r)
                      (chunk_sha1 c) (chunk_size c) (chunk_id c) of
                 (k2, n2, e2) \<Rightarrow>
                   UploadPart f (drop k r) (chunk_sha1 c) (chunk_size c) (chunk_id c) k2 n2 e2)]"
proof -
  let ?w1 = "wstep E i w"
  have s1: "workers ?w1 ! i = WRetry c (drop k r)" "length (workers ?w1) = length (workers w)"
    "calls ?w1 = calls w @ [UploadPart fc r (chunk_sha1 c) (chunk_size c) (chunk_id c) k n e]"
    using assms(1-5) by (auto simp: wstep_def set_worker_def Let_def)
  let ?w2 = "wstep E i ?w1"
  have s2: "workers ?w2 ! i = WUpload f c (drop k r)" "length (workers ?w2) = length (workers w)"
    "calls ?w2 = calls ?w1 @ [GetUploadPartURL (Inr f)]"
    using s1 assms(1,6) by (auto simp: wstep_def [of E i ?w1] set_worker_def Let_def)
  obtain k2 n2 e2 where u: "uploadPart E (calls ?w2) f (drop k r)
      (chunk_sha1 c) (chunk_size c) (chunk_id c) = (k2, n2, e2)"
    by (cases "uploadPart E (calls ?w2) f (drop k r) (chunk_sha1 c) (chunk_size c) (chunk_id c)")
  have s3: "calls (wstep E i ?w2) = calls ?w2 @
      [UploadPart f (drop k r) (chunk_sha1 c) (chunk_size c) (chunk_id c) k2 n2 e2]"
    using s2 assms(1) u by (auto simp: wstep_def [of E i ?w2] set_worker_def Let_def)
  show ?thesis using s1 s2 s3 u by simp
qed

end
